theory Spec2Isabelle
  imports Complex_Main "HOL-Library.AList" "HOL-Library.Multiset"
begin

section \<open>Circuit breaker (backend/src/utils/circuitBreaker.ts)\<close>

text \<open>
  JavaScript numbers that hold counters and millisecond timestamps are modelled as
  \<open>int\<close>: they are integers far below \<open>2 ^ 53\<close>, where the arithmetic of the source
  is exact. Every \<open>Date.now()\<close> of the source is an explicit argument of the model, one
  argument for each place that reads the clock, so that two readings in one call may differ.
  Calls of the logger change no state and are left out.
\<close>

datatype CircuitState = CLOSED | OPEN | HALF_OPEN

record CircuitBreakerOptions =
  failureThreshold :: int
  successThreshold :: int
  timeout :: int
  resetTimeout :: int

text \<open>
  The fields of the class. \<open>pendingResets\<close> is not a field of the source: it records the
  delays handed to \<open>setTimeout\<close> by \<open>open()\<close>, whose callback is \<open>resetTimerFired\<close>.
\<close>

record CircuitBreaker =
  name :: string
  options :: CircuitBreakerOptions
  state :: CircuitState
  failureCount :: int
  successCount :: int
  nextAttempt :: int
  totalRequests :: int
  totalFailures :: int
  totalSuccesses :: int
  pendingResets :: "int list"

definition defaultOptions :: CircuitBreakerOptions where
  "defaultOptions = \<lparr>failureThreshold = 5, successThreshold = 3, timeout = 60000,
     resetTimeout = 300000\<rparr>"

text \<open>The constructor: \<open>new CircuitBreaker(name, options)\<close>.\<close>

definition newCircuitBreaker :: "string \<Rightarrow> CircuitBreakerOptions \<Rightarrow> CircuitBreaker" where
  "newCircuitBreaker nm opts = \<lparr>name = nm, options = opts, state = CLOSED, failureCount = 0,
     successCount = 0, nextAttempt = 0, totalRequests = 0, totalFailures = 0,
     totalSuccesses = 0, pendingResets = []\<rparr>"

text \<open>
  \<open>new Date(t).toISOString()\<close> throws a \<open>RangeError\<close> ("Invalid time value") when
  \<open>t\<close> is not a time value of \<open>Date\<close>, that is when it lies further than 8.64e15
  milliseconds from the epoch.
\<close>

datatype RangeError = InvalidTimeValue

definition toISOString_throws :: "int \<Rightarrow> bool" where
  "toISOString_throws t = (abs t > 8640000000000000)"

text \<open>
  What \<open>execute\<close> throws: the \<open>Error\<close> it builds itself, whose message interpolates the
  breaker's name and \<open>nextAttempt - Date.now()\<close>; the value caught from the operation,
  thrown again as it is; or the \<open>RangeError\<close> that leaves \<open>onFailure\<close> inside the
  \<open>catch\<close> block, before \<open>throw error\<close> is reached.
\<close>

datatype 'e ExecError = BreakerOpen string int | OperationError 'e | Thrown RangeError

text \<open>
  The wrapped operation: it acts on the world outside the breaker (type \<open>'w\<close>, for
  instance the call counter of a mock) and its promise resolves or rejects.
\<close>

datatype ('e, 'a) outcome = Resolved 'a | Rejected 'e

type_synonym ('e, 'a, 'w) operation = "'w \<Rightarrow> ('e, 'a) outcome \<times> 'w"

text \<open>\<open>close()\<close>\<close>

definition close_breaker :: "CircuitBreaker \<Rightarrow> CircuitBreaker" where
  "close_breaker b = b\<lparr>state := CLOSED, failureCount := 0, successCount := 0\<rparr>"

text \<open>
  \<open>open()\<close>, with \<open>now\<close> the reading of \<open>Date.now()\<close> in it: the breaker afterwards
  and what is thrown, if anything. The state and \<open>nextAttempt\<close> are written first; the
  argument \<open>new Date(this.nextAttempt).toISOString()\<close> of the log call is evaluated next
  and may throw; \<open>setTimeout\<close> is reached only when it did not.
\<close>

definition open_breaker :: "CircuitBreaker \<Rightarrow> int \<Rightarrow> CircuitBreaker \<times> RangeError option" where
  "open_breaker b now =
     (let b1 = b\<lparr>state := OPEN, nextAttempt := now + timeout (options b)\<rparr> in
      if toISOString_throws (nextAttempt b1) then (b1, Some InvalidTimeValue)
      else (b1\<lparr>pendingResets := pendingResets b1 @ [resetTimeout (options b1)]\<rparr>, None))"

text \<open>The callback that \<open>open()\<close> hands to \<open>setTimeout\<close>.\<close>

definition resetTimerFired :: "CircuitBreaker \<Rightarrow> CircuitBreaker" where
  "resetTimerFired b = (if state b = OPEN then b\<lparr>failureCount := 0\<rparr> else b)"

definition onSuccess :: "CircuitBreaker \<Rightarrow> CircuitBreaker" where
  "onSuccess b =
     (let b1 = b\<lparr>totalSuccesses := totalSuccesses b + 1\<rparr> in
      if state b1 = HALF_OPEN then
        (let b2 = b1\<lparr>successCount := successCount b1 + 1\<rparr> in
         if successCount b2 \<ge> successThreshold (options b2) then close_breaker b2 else b2)
      else if state b1 = CLOSED then b1\<lparr>failureCount := 0\<rparr>
      else b1)"

text \<open>
  \<open>onFailure\<close>: the breaker afterwards and what is thrown, if anything; a throw of
  \<open>open()\<close> leaves \<open>onFailure\<close> as it is.
\<close>

definition onFailure :: "CircuitBreaker \<Rightarrow> int \<Rightarrow> CircuitBreaker \<times> RangeError option" where
  "onFailure b now =
     (let b1 = b\<lparr>totalFailures := totalFailures b + 1, failureCount := failureCount b + 1\<rparr> in
      if state b1 = HALF_OPEN then open_breaker b1 now
      else if state b1 = CLOSED \<and> failureCount b1 \<ge> failureThreshold (options b1)
        then open_breaker b1 now
      else (b1, None))"

text \<open>
  The part of \<open>execute\<close> before the operation is awaited (the increment of
  \<open>totalRequests\<close> and the test of the OPEN state): the breaker as updated, and the error
  thrown, if one is. \<open>tCheck\<close> is the clock read by the comparison, \<open>tMsg\<close> the clock read
  while the message is built.
\<close>

definition preCall :: "CircuitBreaker \<Rightarrow> int \<Rightarrow> int \<Rightarrow> CircuitBreaker \<times> 'e ExecError option" where
  "preCall b tCheck tMsg =
     (let b1 = b\<lparr>totalRequests := totalRequests b + 1\<rparr> in
      if state b1 = OPEN then
        if tCheck < nextAttempt b1
        then (b1, Some (BreakerOpen (name b1) (nextAttempt b1 - tMsg)))
        else (b1\<lparr>state := HALF_OPEN, successCount := 0\<rparr>, None)
      else (b1, None))"

text \<open>
  \<open>execute\<close>: the result (\<open>Inl\<close> what is thrown, \<open>Inr\<close> what is returned), the breaker
  and the world afterwards. \<open>tSettle\<close> is the clock read by \<open>open()\<close> when the failure of
  the operation opens the breaker. In the \<open>catch\<close> block \<open>this.onFailure()\<close> runs before
  \<open>throw error\<close>: when it throws, its error is the one that leaves \<open>execute\<close>.
\<close>

definition execute ::
  "CircuitBreaker \<Rightarrow> int \<Rightarrow> int \<Rightarrow> int \<Rightarrow> ('e, 'a, 'w) operation \<Rightarrow> 'w
     \<Rightarrow> ('e ExecError + 'a) \<times> CircuitBreaker \<times> 'w" where
  "execute b tCheck tMsg tSettle operation w =
     (case preCall b tCheck tMsg of
        (b1, Some err) \<Rightarrow> (Inl err, b1, w)
      | (b1, None) \<Rightarrow>
          (case operation w of
             (Resolved result, w') \<Rightarrow> (Inr result, onSuccess b1, w')
           | (Rejected error, w') \<Rightarrow>
               (case onFailure b1 tSettle of
                  (b2, Some thrown) \<Rightarrow> (Inl (Thrown thrown), b2, w')
                | (b2, None) \<Rightarrow> (Inl (OperationError error), b2, w'))))"

text \<open>
  A caller that awaits one \<open>execute\<close> after the other: each call comes with its three
  clock readings and its operation.
\<close>

type_synonym ('e, 'a, 'w) call = "int \<times> int \<times> int \<times> ('e, 'a, 'w) operation"

fun executeAll ::
  "CircuitBreaker \<Rightarrow> 'w \<Rightarrow> ('e, 'a, 'w) call list \<Rightarrow> CircuitBreaker \<times> 'w" where
  "executeAll b w [] = (b, w)"
| "executeAll b w ((tCheck, tMsg, tSettle, operation) # cs) =
     (case execute b tCheck tMsg tSettle operation w of (r, b', w') \<Rightarrow> executeAll b' w' cs)"

text \<open>A mock operation that counts its invocations and settles as told.\<close>

definition countingOp :: "('e, 'a) outcome \<Rightarrow> ('e, 'a, nat) operation" where
  "countingOp r = (\<lambda>calls. (r, Suc calls))"

section \<open>Numbers that may be NaN or infinite\<close>

text \<open>
  Durations, byte counts and ratios are modelled in \<open>real\<close>, with exact arithmetic. A
  JavaScript division whose divisor may be zero gives a \<open>number\<close>: \<open>0 / 0\<close> is NaN and
  \<open>x / 0\<close> is an infinity.
\<close>

datatype number = Num real | NaN | PosInfinity | NegInfinity

definition js_div :: "real \<Rightarrow> real \<Rightarrow> number" where
  "js_div a b =
     (if b \<noteq> 0 then Num (a / b)
      else if a = 0 then NaN else if a > 0 then PosInfinity else NegInfinity)"

text \<open>\<open>x * k\<close> for a finite \<open>k\<close>.\<close>

definition js_mul :: "number \<Rightarrow> real \<Rightarrow> number" where
  "js_mul x k =
     (case x of
        Num a \<Rightarrow> Num (a * k)
      | NaN \<Rightarrow> NaN
      | PosInfinity \<Rightarrow> (if k > 0 then PosInfinity else if k < 0 then NegInfinity else NaN)
      | NegInfinity \<Rightarrow> (if k > 0 then NegInfinity else if k < 0 then PosInfinity else NaN))"

text \<open>\<open>x > y\<close> for a finite \<open>y\<close>: false when \<open>x\<close> is NaN.\<close>

definition js_gt :: "number \<Rightarrow> real \<Rightarrow> bool" where
  "js_gt x y = (case x of Num a \<Rightarrow> a > y | PosInfinity \<Rightarrow> True | _ \<Rightarrow> False)"

text \<open>\<open>x || 0\<close>: NaN and 0 are falsy.\<close>

definition or_zero :: "number \<Rightarrow> number" where
  "or_zero x = (case x of NaN \<Rightarrow> Num 0 | _ \<Rightarrow> x)"

text \<open>\<open>xs[i]\<close>: \<open>undefined\<close> (here \<open>None\<close>) out of range.\<close>

definition js_index :: "'a list \<Rightarrow> nat \<Rightarrow> 'a option" where
  "js_index xs i = (if i < length xs then Some (xs ! i) else None)"

section \<open>Expiring cache (class CacheService)\<close>

text \<open>
  The \<open>Map\<close> of the class iterates in insertion order: it is an association list with
  distinct keys, \<open>Map.set\<close> is \<open>AList.update\<close> (in place for a key that is there, at the
  end for a new one), \<open>Map.delete\<close> is \<open>AList.delete\<close>, \<open>Map.get\<close> is \<open>map_of\<close> and
  \<open>Map.size\<close> is the length. \<open>null\<close> is \<open>None\<close>.
\<close>

record CacheOptions =
  ttl :: int
  maxSize :: int
  cleanupInterval :: int

record 'a CacheEntry =
  entry_value :: 'a
  expiry :: int
  lastAccessed :: int
  accessCount :: int

record 'a CacheService =
  cache :: "(string \<times> 'a CacheEntry) list"
  hits :: int
  misses :: int
  evictions :: int
  totalAccessTime :: int
  totalAccesses :: int
  cache_options :: CacheOptions

record CacheStats =
  stats_size :: int
  stats_hits :: int
  stats_misses :: int
  hitRate :: number
  avgAccessTime :: number
  stats_evictions :: int

definition defaultCacheOptions :: CacheOptions where
  "defaultCacheOptions = \<lparr>ttl = 300000, maxSize = 1000, cleanupInterval = 60000\<rparr>"

definition newCacheService :: "CacheOptions \<Rightarrow> 'a CacheService" where
  "newCacheService opts = \<lparr>cache = [], hits = 0, misses = 0, evictions = 0,
     totalAccessTime = 0, totalAccesses = 0, cache_options = opts\<rparr>"

text \<open>
  \<open>get\<close>, with the four readings of the clock in the order of the source: at the start, in
  the test of the expiry, for \<open>lastAccessed\<close> and for the access time.
\<close>

definition get :: "'a CacheService \<Rightarrow> string \<Rightarrow> int \<Rightarrow> int \<Rightarrow> int \<Rightarrow> int
    \<Rightarrow> 'a option \<times> 'a CacheService" where
  "get c key tStart tCheck tAccess tEnd =
     (case map_of (cache c) key of
        None \<Rightarrow> (None, c\<lparr>misses := misses c + 1\<rparr>)
      | Some entry \<Rightarrow>
          if tCheck > expiry entry
          then (None, c\<lparr>cache := AList.delete key (cache c), misses := misses c + 1\<rparr>)
          else
            (let entry' = entry\<lparr>lastAccessed := tAccess, accessCount := accessCount entry + 1\<rparr>;
                 accessTime = tEnd - tStart
             in (Some (entry_value entry'),
                 c\<lparr>cache := AList.update key entry' (cache c),
                   hits := hits c + 1,
                   totalAccessTime := totalAccessTime c + accessTime,
                   totalAccesses := totalAccesses c + 1\<rparr>)))"

text \<open>The loop of \<open>evict\<close> over the entries, carrying \<open>oldestAccess\<close> and \<open>keyToEvict\<close>.\<close>

fun evictScan :: "(string \<times> 'a CacheEntry) list \<Rightarrow> int \<Rightarrow> string option \<Rightarrow> int \<times> string option" where
  "evictScan [] oldestAccess keyToEvict = (oldestAccess, keyToEvict)"
| "evictScan ((key, entry) # rest) oldestAccess keyToEvict =
     (if lastAccessed entry < oldestAccess
      then evictScan rest (lastAccessed entry) (Some key)
      else evictScan rest oldestAccess keyToEvict)"

text \<open>
  \<open>evict\<close>: \<open>oldestAccess\<close> starts at \<open>Date.now()\<close>; \<open>if (keyToEvict)\<close> is false for
  \<open>null\<close> and for the empty string.
\<close>

definition evict :: "'a CacheService \<Rightarrow> int \<Rightarrow> 'a CacheService" where
  "evict c now =
     (case snd (evictScan (cache c) now None) of
        None \<Rightarrow> c
      | Some keyToEvict \<Rightarrow>
          if keyToEvict = [] then c
          else c\<lparr>cache := AList.delete keyToEvict (cache c), evictions := evictions c + 1\<rparr>)"

text \<open>
  \<open>set\<close>: \<open>ttl'\<close> is the optional argument, and \<open>ttl || this.options.ttl\<close> takes the
  default for \<open>undefined\<close> and for 0. The clock is read by \<open>evict\<close>, for the expiry and for
  \<open>lastAccessed\<close>.
\<close>

definition set_cache :: "'a CacheService \<Rightarrow> string \<Rightarrow> 'a \<Rightarrow> int option \<Rightarrow> int \<Rightarrow> int \<Rightarrow> int
    \<Rightarrow> 'a CacheService" where
  "set_cache c key v ttl' tEvict tExpiry tAccess =
     (let c1 = (if int (length (cache c)) \<ge> maxSize (cache_options c) then evict c tEvict else c);
          ttl_used = (case ttl' of
                        None \<Rightarrow> ttl (cache_options c1)
                      | Some t \<Rightarrow> if t = 0 then ttl (cache_options c1) else t)
      in c1\<lparr>cache := AList.update key
               \<lparr>entry_value = v, expiry = tExpiry + ttl_used, lastAccessed = tAccess,
                accessCount = 0\<rparr> (cache c1)\<rparr>)"

definition delete_cache :: "'a CacheService \<Rightarrow> string \<Rightarrow> bool \<times> 'a CacheService" where
  "delete_cache c key =
     (map_of (cache c) key \<noteq> None, c\<lparr>cache := AList.delete key (cache c)\<rparr>)"

definition resetStats :: "'a CacheService \<Rightarrow> 'a CacheService" where
  "resetStats c = c\<lparr>hits := 0, misses := 0, evictions := 0, totalAccessTime := 0,
     totalAccesses := 0\<rparr>"

definition clear :: "'a CacheService \<Rightarrow> 'a CacheService" where
  "clear c = resetStats (c\<lparr>cache := []\<rparr>)"

definition getStats :: "'a CacheService \<Rightarrow> CacheStats" where
  "getStats c =
     \<lparr>stats_size = int (length (cache c)),
      stats_hits = hits c,
      stats_misses = misses c,
      hitRate = or_zero (js_div (real_of_int (hits c)) (real_of_int (hits c + misses c))),
      avgAccessTime =
        or_zero (js_div (real_of_int (totalAccessTime c)) (real_of_int (totalAccesses c))),
      stats_evictions = evictions c\<rparr>"

text \<open>The sweep that \<open>startCleanup\<close> runs on its interval.\<close>

definition cleanup :: "'a CacheService \<Rightarrow> int \<Rightarrow> 'a CacheService" where
  "cleanup c now = c\<lparr>cache := filter (\<lambda>(key, entry). \<not> now > expiry entry) (cache c)\<rparr>"

section \<open>Telemetry (backend/src/utils/performance.ts)\<close>

record MemoryUsage =
  rss :: real
  heapTotal :: real
  heapUsed :: real
  external :: real
  arrayBuffers :: real

record CpuUsage =
  user :: real
  system :: real

record PerformanceMetrics =
  duration :: real
  memoryUsage :: MemoryUsage
  cpuUsage :: CpuUsage
  timestamp :: int

record ProfileStats =
  count :: nat
  avgDuration :: real
  minDuration :: "real option"
  maxDuration :: "real option"
  p95Duration :: "real option"
  avgMemoryUsed :: real

text \<open>
  What the function returned by \<open>startProfile\<close> does with the metrics it has computed:
  it appends them to the array of the label and drops the oldest beyond 100.
\<close>

definition storeMetrics ::
  "(string \<rightharpoonup> PerformanceMetrics list) \<Rightarrow> string \<Rightarrow> PerformanceMetrics
     \<Rightarrow> (string \<rightharpoonup> PerformanceMetrics list)" where
  "storeMetrics profiles label metrics =
     (let profileArray = (case profiles label of None \<Rightarrow> [] | Some ps \<Rightarrow> ps) @ [metrics]
      in profiles(label \<mapsto> (if length profileArray > 100 then tl profileArray else profileArray)))"

text \<open>
  \<open>getProfileStats\<close>. \<open>sort((a, b) => a - b)\<close> is the ascending sort; the three indexed
  reads are \<open>js_index\<close>, so that a read out of range would show as \<open>None\<close>;
  \<open>Math.floor(durations.length * 0.95)\<close> is the floor of the exact product. The two
  divisions have a divisor that is not 0 here.
\<close>

definition getProfileStats ::
  "(string \<rightharpoonup> PerformanceMetrics list) \<Rightarrow> string \<Rightarrow> ProfileStats option" where
  "getProfileStats profiles label =
     (case profiles label of
        None \<Rightarrow> None
      | Some ps \<Rightarrow>
          if length ps = 0 then None
          else
            (let durations = sort (map duration ps);
                 memoryUsages = map (\<lambda>p. heapUsed (memoryUsage p)) ps
             in Some \<lparr>count = length ps,
                  avgDuration = foldl (+) 0 durations / real (length durations),
                  minDuration = js_index durations 0,
                  maxDuration = js_index durations (length durations - 1),
                  p95Duration = js_index durations (nat \<lfloor>real (length durations) * (95 / 100)\<rfloor>),
                  avgMemoryUsed = foldl (+) 0 memoryUsages / real (length memoryUsages)\<rparr>))"

record BenchmarkResult =
  totalTime :: real
  avgTime :: number
  minTime :: real
  maxTime :: real
  rps :: number
  errors :: nat

text \<open>
  \<open>LoadTester.benchmark\<close>. The function under test is given by what each timed call did:
  \<open>fn batch i\<close> is \<open>Some d\<close> when call \<open>i\<close> of batch \<open>batch\<close> resolved, \<open>d\<close> being
  \<open>performance.now() - iterStart\<close>, and \<open>None\<close> when it threw. The warm-up calls leave no
  trace in the result. The batches interleave at their awaits; the model collects the
  outcomes batch after batch, which changes nothing in the result, since \<open>results\<close> is
  sorted in place before anything is read from it and \<open>errors\<close> is only counted.
  \<open>Math.ceil(iterations / concurrency)\<close> is read only when \<open>concurrency\<close> is positive.
\<close>

definition batchSize :: "nat \<Rightarrow> nat \<Rightarrow> nat" where
  "batchSize iterations concurrency = (iterations + concurrency - 1) div concurrency"

definition timedCalls :: "nat \<Rightarrow> nat \<Rightarrow> (nat \<times> nat) list" where
  "timedCalls iterations concurrency =
     concat (map (\<lambda>batch.
               map (\<lambda>i. (batch, i))
                 (takeWhile (\<lambda>i. batch * batchSize iterations concurrency + i < iterations)
                    [0 ..< batchSize iterations concurrency]))
             [0 ..< concurrency])"

definition benchmark :: "(nat \<Rightarrow> nat \<Rightarrow> real option) \<Rightarrow> nat \<Rightarrow> nat \<Rightarrow> real \<Rightarrow> BenchmarkResult" where
  "benchmark fn iterations concurrency elapsed =
     (let outcomes = map (\<lambda>(batch, i). fn batch i) (timedCalls iterations concurrency);
          results = concat (map (\<lambda>r. case r of Some d \<Rightarrow> [d] | None \<Rightarrow> []) outcomes);
          errs = concat (map (\<lambda>r. case r of Some d \<Rightarrow> [] | None \<Rightarrow> [1::nat]) outcomes);
          sortedResults = sort results
      in \<lparr>totalTime = elapsed,
          avgTime = js_div (foldl (+) 0 sortedResults) (real (length sortedResults)),
          minTime = (case js_index sortedResults 0 of None \<Rightarrow> 0 | Some x \<Rightarrow> x),
          maxTime = (if sortedResults = [] then 0 else last sortedResults),
          rps = js_mul (js_div (real (length sortedResults)) elapsed) 1000,
          errors = length errs\<rparr>)"

text \<open>
  \<open>MemoryLeakDetector.calculateTrend\<close>: the three \<open>reduce\<close> calls are left folds, the
  second and third over the values with their indices.
\<close>

definition calculateTrend :: "real list \<Rightarrow> number" where
  "calculateTrend values =
     (let n = real (length values);
          sumX = (n * (n - 1)) / 2;
          sumY = foldl (+) 0 values;
          sumXY = foldl (\<lambda>sum (x, y). sum + real x * y) 0 (enumerate 0 values);
          sumXX = foldl (\<lambda>sum (x, y). sum + real x * real x) 0 (enumerate 0 values);
          slope = js_div (n * sumXY - sumX * sumY) (n * sumXX - sumX * sumX)
      in js_mul slope (n - 1))"

text \<open>\<open>checkForLeaks\<close>: whether the warning is printed. \<open>slice(-5)\<close> keeps the last five.\<close>

definition checkForLeaks :: "MemoryUsage list \<Rightarrow> bool" where
  "checkForLeaks snapshots =
     (if length snapshots < 5 then False
      else
        (let recent = drop (length snapshots - 5) snapshots;
             trend = calculateTrend (map heapUsed recent)
         in js_gt trend (50 * 1024 * 1024)))"

text \<open>One tick of the interval of \<open>start\<close>: the new array and whether the warning is printed.\<close>

definition sampleTick :: "MemoryUsage list \<Rightarrow> MemoryUsage \<Rightarrow> MemoryUsage list \<times> bool" where
  "sampleTick snapshots usage =
     (let pushed = snapshots @ [usage];
          kept = (if length pushed > 20 then tl pushed else pushed)
      in (kept, checkForLeaks kept))"

text \<open>
  The ordinary least-squares slope as the specification names it, for comparison with
  \<open>calculateTrend\<close>: the covariance of the points with the variance of their abscissas,
  both taken around the means.
\<close>

definition mean :: "real list \<Rightarrow> real" where
  "mean xs = sum_list xs / real (length xs)"

definition spec_ols_slope :: "(real \<times> real) list \<Rightarrow> real" where
  "spec_ols_slope pts =
     sum_list (map (\<lambda>(x, y). (x - mean (map fst pts)) * (y - mean (map snd pts))) pts)
       / sum_list (map (\<lambda>(x, y). (x - mean (map fst pts)) ^ 2) pts)"

definition spec_drift :: "real list \<Rightarrow> real" where
  "spec_drift values =
     spec_ols_slope (zip (map real [0 ..< length values]) values) * (real (length values) - 1)"

text \<open>Fixtures for the examples: a sample with a given duration, a snapshot with a given heap.\<close>

definition sampleWithDuration :: "real \<Rightarrow> PerformanceMetrics" where
  "sampleWithDuration d =
     \<lparr>duration = d,
      memoryUsage = \<lparr>rss = 0, heapTotal = 0, heapUsed = 0, external = 0, arrayBuffers = 0\<rparr>,
      cpuUsage = \<lparr>user = 0, system = 0\<rparr>, timestamp = 0\<rparr>"

definition snapshotWithHeap :: "real \<Rightarrow> MemoryUsage" where
  "snapshotWithHeap h = \<lparr>rss = h, heapTotal = h, heapUsed = h, external = 0, arrayBuffers = 0\<rparr>"

section \<open>Fail fast while OPEN\<close>

text \<open>
  C1: an \<open>execute\<close> on a breaker that is OPEN, at a time strictly before \<open>nextAttempt\<close>,
  throws the breaker-open error, which carries the breaker's name and the remaining wait
  (\<open>nextAttempt\<close> minus the clock read for the message); the operation is not invoked
  (the world is returned as it was, whatever the operation is), and \<open>totalRequests\<close> has
  grown by 1 while nothing else of the breaker has changed.
\<close>

theorem execute_open_rejects:
  assumes "state b = OPEN" and "tCheck < nextAttempt b"
  shows "execute b tCheck tMsg tSettle operation w =
           (Inl (BreakerOpen (name b) (nextAttempt b - tMsg)),
            b\<lparr>totalRequests := totalRequests b + 1\<rparr>, w)"
  using assms by (simp add: execute_def preCall_def Let_def)

theorem execute_open_rejects_witness:
  "state ((newCircuitBreaker ''db'' defaultOptions)\<lparr>state := OPEN, nextAttempt := 5000\<rparr>) = OPEN
   \<and> 1000 < nextAttempt ((newCircuitBreaker ''db'' defaultOptions)\<lparr>state := OPEN, nextAttempt := 5000\<rparr>)
   \<and> execute ((newCircuitBreaker ''db'' defaultOptions)\<lparr>state := OPEN, nextAttempt := 5000\<rparr>)
      1000 1002 1003 (countingOp (Resolved (7::nat)) :: (unit, nat, nat) operation) 0 =
     (Inl (BreakerOpen ''db'' 3998),
      (newCircuitBreaker ''db'' defaultOptions)\<lparr>state := OPEN, nextAttempt := 5000, totalRequests := 1\<rparr>,
      0)"
  using execute_open_rejects
    [of "(newCircuitBreaker ''db'' defaultOptions)\<lparr>state := OPEN, nextAttempt := 5000\<rparr>"
        1000 1002 1003 "countingOp (Resolved (7::nat)) :: (unit, nat, nat) operation" 0]
  by (simp add: newCircuitBreaker_def)

section \<open>Helper facts about calls that are let through\<close>

lemma executeAll_append:
  "executeAll b w (cs @ ds) = (case executeAll b w cs of (b', w') \<Rightarrow> executeAll b' w' ds)"
  by (induction b w cs rule: executeAll.induct) (auto split: prod.splits)

lemma execute_rejected:
  assumes "state b \<noteq> OPEN" and "fst (operation w) = Rejected e"
  shows "\<exists>r. execute b tCheck tMsg tSettle operation w =
           (r, fst (onFailure (b\<lparr>totalRequests := totalRequests b + 1\<rparr>) tSettle),
            snd (operation w))"
  using assms
  by (cases "operation w")
    (simp add: execute_def preCall_def Let_def split: prod.splits option.splits)

lemma onFailure_counts:
  "totalFailures (fst (onFailure b now)) = totalFailures b + 1
   \<and> failureCount (fst (onFailure b now)) = failureCount b + 1
   \<and> totalRequests (fst (onFailure b now)) = totalRequests b
   \<and> totalSuccesses (fst (onFailure b now)) = totalSuccesses b
   \<and> options (fst (onFailure b now)) = options b"
  by (simp add: onFailure_def open_breaker_def Let_def)

lemma onFailure_state:
  "state (fst (onFailure b now)) =
     (if state b = HALF_OPEN \<or> state b = CLOSED \<and> failureCount b + 1 \<ge> failureThreshold (options b)
      then OPEN else state b)"
  by (simp add: onFailure_def open_breaker_def Let_def)

lemma onFailure_nextAttempt:
  "state b = HALF_OPEN \<or> state b = CLOSED \<and> failureCount b + 1 \<ge> failureThreshold (options b)
     \<Longrightarrow> nextAttempt (fst (onFailure b now)) = now + timeout (options b)"
  by (auto simp add: onFailure_def open_breaker_def Let_def)

lemma execute_resolved:
  assumes "state b \<noteq> OPEN" and "fst (operation w) = Resolved v"
  shows "execute b tCheck tMsg tSettle operation w =
           (Inr v, onSuccess (b\<lparr>totalRequests := totalRequests b + 1\<rparr>), snd (operation w))"
  using assms by (cases "operation w") (simp add: execute_def preCall_def Let_def)

lemma failures_below_threshold:
  assumes "\<forall>(tCheck, tMsg, tSettle, operation) \<in> set cs. \<forall>w. \<exists>e. fst (operation w) = Rejected e"
    and "state b = CLOSED"
    and "failureCount b + int (length cs) < failureThreshold (options b)"
  shows "state (fst (executeAll b w cs)) = CLOSED
         \<and> failureCount (fst (executeAll b w cs)) = failureCount b + int (length cs)
         \<and> options (fst (executeAll b w cs)) = options b"
  using assms
proof (induction cs arbitrary: b w)
  case Nil
  then show ?case by simp
next
  case (Cons c cs)
  obtain tCheck tMsg tSettle operation where c: "c = (tCheck, tMsg, tSettle, operation)"
    by (cases c) auto
  from Cons.prems(1) c have "\<forall>w. \<exists>e. fst (operation w) = Rejected e" by simp
  then obtain e where e: "fst (operation w) = Rejected e" by blast
  let ?b' = "fst (onFailure (b\<lparr>totalRequests := totalRequests b + 1\<rparr>) tSettle)"
  obtain r where ex: "execute b tCheck tMsg tSettle operation w = (r, ?b', snd (operation w))"
    using execute_rejected [of b operation w e tCheck tMsg tSettle] Cons.prems(2) e by auto
  have b': "state ?b' = CLOSED" "failureCount ?b' = failureCount b + 1" "options ?b' = options b"
    using Cons.prems(2,3) by (simp_all add: onFailure_counts onFailure_state)
  have "state (fst (executeAll ?b' (snd (operation w)) cs)) = CLOSED
         \<and> failureCount (fst (executeAll ?b' (snd (operation w)) cs)) = failureCount ?b' + int (length cs)
         \<and> options (fst (executeAll ?b' (snd (operation w)) cs)) = options ?b'"
    using Cons.prems(1,3) b' by (intro Cons.IH) auto
  then show ?case using c ex b' by simp
qed


lemma successes_below_threshold:
  assumes "\<forall>(tCheck, tMsg, tSettle, operation) \<in> set cs. \<forall>w. \<exists>v. fst (operation w) = Resolved v"
    and "state b = HALF_OPEN"
    and "successCount b + int (length cs) < successThreshold (options b)"
  shows "state (fst (executeAll b w cs)) = HALF_OPEN
         \<and> successCount (fst (executeAll b w cs)) = successCount b + int (length cs)
         \<and> options (fst (executeAll b w cs)) = options b"
  using assms
proof (induction cs arbitrary: b w)
  case Nil
  then show ?case by simp
next
  case (Cons c cs)
  obtain tCheck tMsg tSettle operation where c: "c = (tCheck, tMsg, tSettle, operation)"
    by (cases c) auto
  from Cons.prems(1) c have "\<forall>w. \<exists>v. fst (operation w) = Resolved v" by simp
  then obtain v where v: "fst (operation w) = Resolved v" by blast
  let ?b' = "onSuccess (b\<lparr>totalRequests := totalRequests b + 1\<rparr>)"
  have ex: "execute b tCheck tMsg tSettle operation w = (Inr v, ?b', snd (operation w))"
    using execute_resolved [of b operation w v] Cons.prems(2) v by simp
  have b': "state ?b' = HALF_OPEN" "successCount ?b' = successCount b + 1" "options ?b' = options b"
    using Cons.prems(2,3) by (simp_all add: onSuccess_def Let_def)
  have "state (fst (executeAll ?b' (snd (operation w)) cs)) = HALF_OPEN
         \<and> successCount (fst (executeAll ?b' (snd (operation w)) cs)) = successCount ?b' + int (length cs)
         \<and> options (fst (executeAll ?b' (snd (operation w)) cs)) = options ?b'"
    using Cons.prems(1,3) b' by (intro Cons.IH) auto
  then show ?case using c ex b' by simp
qed

lemma opens_at_threshold:
  assumes "\<forall>(tCheck, tMsg, tSettle, operation) \<in> set cs. \<forall>w. \<exists>e. fst (operation w) = Rejected e"
    and "state b = CLOSED" and "cs \<noteq> []"
    and "failureCount b + int (length cs) = failureThreshold (options b)"
  shows "state (fst (executeAll b w cs)) = OPEN
         \<and> failureCount (fst (executeAll b w cs)) = failureThreshold (options b)"
proof -
  from \<open>cs \<noteq> []\<close> obtain ds c where cs: "cs = ds @ [c]"
    by (metis append_butlast_last_id)
  obtain tCheck tMsg tSettle operation where c: "c = (tCheck, tMsg, tSettle, operation)"
    by (cases c) auto
  obtain b1 w1 where r1: "executeAll b w ds = (b1, w1)" by (cases "executeAll b w ds") auto
  have ds: "\<forall>(tCheck, tMsg, tSettle, operation) \<in> set ds. \<forall>w. \<exists>e. fst (operation w) = Rejected e"
    using assms(1) cs by simp
  have "failureCount b + int (length ds) < failureThreshold (options b)"
    using assms(4) cs by simp
  from failures_below_threshold [OF ds assms(2) this, of w] r1
  have b1: "state b1 = CLOSED" "failureCount b1 = failureCount b + int (length ds)"
    "options b1 = options b" by simp_all
  from assms(1) cs c have "\<forall>w. \<exists>e. fst (operation w) = Rejected e" by simp
  then obtain e where e: "fst (operation w1) = Rejected e" by blast
  obtain r where ex: "execute b1 tCheck tMsg tSettle operation w1
              = (r, fst (onFailure (b1\<lparr>totalRequests := totalRequests b1 + 1\<rparr>) tSettle),
                 snd (operation w1))"
    using execute_rejected [of b1 operation w1 e tCheck tMsg tSettle] b1(1) e by auto
  have "failureCount b1 + 1 = failureThreshold (options b1)"
    using b1 assms(4) cs by simp
  then have "state (fst (onFailure (b1\<lparr>totalRequests := totalRequests b1 + 1\<rparr>) tSettle)) = OPEN
     \<and> failureCount (fst (onFailure (b1\<lparr>totalRequests := totalRequests b1 + 1\<rparr>) tSettle))
         = failureThreshold (options b)"
    using b1 by (simp add: onFailure_counts onFailure_state)
  then show ?thesis
    using cs c r1 ex by (simp add: executeAll_append)
qed

lemma closes_at_threshold:
  assumes "\<forall>(tCheck, tMsg, tSettle, operation) \<in> set cs. \<forall>w. \<exists>v. fst (operation w) = Resolved v"
    and "state b = HALF_OPEN" and "cs \<noteq> []"
    and "successCount b + int (length cs) = successThreshold (options b)"
  shows "state (fst (executeAll b w cs)) = CLOSED
         \<and> failureCount (fst (executeAll b w cs)) = 0
         \<and> successCount (fst (executeAll b w cs)) = 0"
proof -
  from \<open>cs \<noteq> []\<close> obtain ds c where cs: "cs = ds @ [c]"
    by (metis append_butlast_last_id)
  obtain tCheck tMsg tSettle operation where c: "c = (tCheck, tMsg, tSettle, operation)"
    by (cases c) auto
  obtain b1 w1 where r1: "executeAll b w ds = (b1, w1)" by (cases "executeAll b w ds") auto
  have ds: "\<forall>(tCheck, tMsg, tSettle, operation) \<in> set ds. \<forall>w. \<exists>v. fst (operation w) = Resolved v"
    using assms(1) cs by simp
  have "successCount b + int (length ds) < successThreshold (options b)"
    using assms(4) cs by simp
  from successes_below_threshold [OF ds assms(2) this, of w] r1
  have b1: "state b1 = HALF_OPEN" "successCount b1 = successCount b + int (length ds)"
    "options b1 = options b" by simp_all
  from assms(1) cs c have "\<forall>w. \<exists>v. fst (operation w) = Resolved v" by simp
  then obtain v where v: "fst (operation w1) = Resolved v" by blast
  have ex: "execute b1 tCheck tMsg tSettle operation w1
              = (Inr v, onSuccess (b1\<lparr>totalRequests := totalRequests b1 + 1\<rparr>), snd (operation w1))"
    using execute_resolved [of b1 operation w1 v] b1(1) v by simp
  have "successCount b1 + 1 = successThreshold (options b1)"
    using b1 assms(4) cs by simp
  then have "state (onSuccess (b1\<lparr>totalRequests := totalRequests b1 + 1\<rparr>)) = CLOSED
     \<and> failureCount (onSuccess (b1\<lparr>totalRequests := totalRequests b1 + 1\<rparr>)) = 0
     \<and> successCount (onSuccess (b1\<lparr>totalRequests := totalRequests b1 + 1\<rparr>)) = 0"
    using b1 by (simp add: onSuccess_def close_breaker_def Let_def)
  then show ?thesis
    using cs c r1 ex by (simp add: executeAll_append)
qed


section \<open>Opening on the threshold\<close>

text \<open>
  C2: a breaker in CLOSED with no failure counted and \<open>failureThreshold = N\<close> (\<open>N\<close> at
  least 1) that sees \<open>N\<close> calls in a row whose operation throws is still CLOSED after
  each of the first \<open>N - 1\<close> of them, with \<open>failureCount\<close> the number of failures so far,
  and is OPEN after the \<open>N\<close>-th. A call whose operation resolves while the breaker is
  CLOSED leaves it CLOSED with \<open>failureCount = 0\<close>.
\<close>

theorem closed_opens_on_Nth_failure:
  "(state b = CLOSED \<and> failureCount b = 0 \<and> failureThreshold (options b) = int N \<and> 0 < N
      \<and> length cs = N
      \<and> (\<forall>(tCheck, tMsg, tSettle, operation) \<in> set cs. \<forall>w. \<exists>e. fst (operation w) = Rejected e)
    \<longrightarrow> (\<forall>k < N. state (fst (executeAll b w (take k cs))) = CLOSED
                  \<and> failureCount (fst (executeAll b w (take k cs))) = int k)
        \<and> state (fst (executeAll b w cs)) = OPEN
        \<and> failureCount (fst (executeAll b w cs)) = int N)
   \<and> (state b' = CLOSED \<and> fst (operation' w') = Resolved v
    \<longrightarrow> state (fst (snd (execute b' tCheck tMsg tSettle operation' w'))) = CLOSED
        \<and> failureCount (fst (snd (execute b' tCheck tMsg tSettle operation' w'))) = 0)"
proof (intro conjI impI)
  assume a: "state b = CLOSED \<and> failureCount b = 0 \<and> failureThreshold (options b) = int N \<and> 0 < N
      \<and> length cs = N
      \<and> (\<forall>(tCheck, tMsg, tSettle, operation) \<in> set cs. \<forall>w. \<exists>e. fst (operation w) = Rejected e)"
  then have st: "state b = CLOSED" and fc: "failureCount b = 0"
    and th: "failureThreshold (options b) = int N" and N: "0 < N" and len: "length cs = N"
    and rej: "\<forall>(tCheck, tMsg, tSettle, operation) \<in> set cs. \<forall>w. \<exists>e. fst (operation w) = Rejected e"
    by simp_all
  show "\<forall>k < N. state (fst (executeAll b w (take k cs))) = CLOSED
                  \<and> failureCount (fst (executeAll b w (take k cs))) = int k"
  proof (intro allI impI)
    fix k assume k: "k < N"
    have 1: "\<forall>(tCheck, tMsg, tSettle, operation) \<in> set (take k cs). \<forall>w. \<exists>e. fst (operation w) = Rejected e"
    proof
      fix c assume "c \<in> set (take k cs)"
      then have "c \<in> set cs" by (rule in_set_takeD)
      with rej show "case c of (tCheck, tMsg, tSettle, operation) \<Rightarrow> \<forall>w. \<exists>e. fst (operation w) = Rejected e"
        by (rule bspec)
    qed
    have 2: "failureCount b + int (length (take k cs)) < failureThreshold (options b)"
      using fc th len k by simp
    from failures_below_threshold [OF 1 st 2, of w] fc len k
    show "state (fst (executeAll b w (take k cs))) = CLOSED
                  \<and> failureCount (fst (executeAll b w (take k cs))) = int k"
      by simp
  qed
  have ne: "cs \<noteq> []" using N len by auto
  have eq: "failureCount b + int (length cs) = failureThreshold (options b)"
    using fc th len by simp
  from opens_at_threshold [OF rej st ne eq, of w] th
  show "state (fst (executeAll b w cs)) = OPEN"
    and "failureCount (fst (executeAll b w cs)) = int N" by simp_all
next
  assume s: "state b' = CLOSED \<and> fst (operation' w') = Resolved v"
  then have "execute b' tCheck tMsg tSettle operation' w'
      = (Inr v, onSuccess (b'\<lparr>totalRequests := totalRequests b' + 1\<rparr>), snd (operation' w'))"
    using execute_resolved [of b' operation' w' v] by simp
  then show "state (fst (snd (execute b' tCheck tMsg tSettle operation' w'))) = CLOSED"
    and "failureCount (fst (snd (execute b' tCheck tMsg tSettle operation' w'))) = 0"
    using s by (simp_all add: onSuccess_def Let_def)
qed

theorem closed_opens_on_Nth_failure_witness:
  "state (fst (executeAll (newCircuitBreaker ''db'' (defaultOptions\<lparr>failureThreshold := 2\<rparr>)) 0
        (take 1 [(10, 10, 11, countingOp (Rejected ''boom'')),
                 (20::int, 20::int, 21::int, countingOp (Rejected ''bang'') :: (string, nat, nat) operation)]))) = CLOSED
   \<and> failureCount (fst (executeAll (newCircuitBreaker ''db'' (defaultOptions\<lparr>failureThreshold := 2\<rparr>)) 0
        (take 1 [(10, 10, 11, countingOp (Rejected ''boom'')),
                 (20::int, 20::int, 21::int, countingOp (Rejected ''bang'') :: (string, nat, nat) operation)]))) = 1
   \<and> state (fst (executeAll (newCircuitBreaker ''db'' (defaultOptions\<lparr>failureThreshold := 2\<rparr>)) 0
        [(10, 10, 11, countingOp (Rejected ''boom'')),
         (20::int, 20::int, 21::int, countingOp (Rejected ''bang'') :: (string, nat, nat) operation)])) = OPEN
   \<and> failureCount (fst (executeAll (newCircuitBreaker ''db'' (defaultOptions\<lparr>failureThreshold := 2\<rparr>)) 0
        [(10, 10, 11, countingOp (Rejected ''boom'')),
         (20::int, 20::int, 21::int, countingOp (Rejected ''bang'') :: (string, nat, nat) operation)])) = 2
   \<and> state ((newCircuitBreaker ''db'' defaultOptions)\<lparr>failureCount := 4\<rparr>) = CLOSED
   \<and> fst ((countingOp (Resolved (7::nat)) :: (string, nat, nat) operation) 0) = Resolved 7
   \<and> state (fst (snd (execute ((newCircuitBreaker ''db'' defaultOptions)\<lparr>failureCount := 4\<rparr>)
         30 30 31 (countingOp (Resolved (7::nat)) :: (string, nat, nat) operation) 0))) = CLOSED
   \<and> failureCount (fst (snd (execute ((newCircuitBreaker ''db'' defaultOptions)\<lparr>failureCount := 4\<rparr>)
         30 30 31 (countingOp (Resolved (7::nat)) :: (string, nat, nat) operation) 0))) = 0"
proof -
  let ?b = "newCircuitBreaker ''db'' (defaultOptions\<lparr>failureThreshold := 2\<rparr>)"
  let ?cs = "[(10, 10, 11, countingOp (Rejected ''boom'')),
              (20::int, 20::int, 21::int, countingOp (Rejected ''bang'') :: (string, nat, nat) operation)]"
  let ?b' = "(newCircuitBreaker ''db'' defaultOptions)\<lparr>failureCount := 4\<rparr>"
  let ?op = "countingOp (Resolved (7::nat)) :: (string, nat, nat) operation"
  have h1: "state ?b = CLOSED \<and> failureCount ?b = 0 \<and> failureThreshold (options ?b) = int 2
      \<and> 0 < (2::nat) \<and> length ?cs = 2
      \<and> (\<forall>(tCheck, tMsg, tSettle, operation) \<in> set ?cs. \<forall>w. \<exists>e. fst (operation w) = Rejected e)"
    by (simp add: newCircuitBreaker_def countingOp_def)
  have h2: "state ?b' = CLOSED \<and> fst (?op 0) = Resolved 7"
    by (simp add: newCircuitBreaker_def countingOp_def)
  note t = closed_opens_on_Nth_failure [of ?b 2 ?cs 0 ?b' ?op 0 7 30 30 31]
  from t h1 have c1: "(\<forall>k < 2. state (fst (executeAll ?b 0 (take k ?cs))) = CLOSED
                  \<and> failureCount (fst (executeAll ?b 0 (take k ?cs))) = int k)
        \<and> state (fst (executeAll ?b 0 ?cs)) = OPEN
        \<and> failureCount (fst (executeAll ?b 0 ?cs)) = int 2" by (rule conjunct1 [THEN mp])
  from t h2 have c3: "state (fst (snd (execute ?b' 30 30 31 ?op 0))) = CLOSED
     \<and> failureCount (fst (snd (execute ?b' 30 30 31 ?op 0))) = 0" by (rule conjunct2 [THEN mp])
  have lt: "(1::nat) < 2" by simp
  from c1 have "(1::nat) < 2 \<longrightarrow> state (fst (executeAll ?b 0 (take 1 ?cs))) = CLOSED
                  \<and> failureCount (fst (executeAll ?b 0 (take 1 ?cs))) = int 1"
    by (rule conjunct1 [THEN spec])
  from this lt have "state (fst (executeAll ?b 0 (take 1 ?cs))) = CLOSED
                  \<and> failureCount (fst (executeAll ?b 0 (take 1 ?cs))) = int 1" by (rule mp)
  then have c1a: "state (fst (executeAll ?b 0 (take 1 ?cs))) = CLOSED"
    and c1b: "failureCount (fst (executeAll ?b 0 (take 1 ?cs))) = 1" by (simp_all only: of_nat_1)
  from c1 have c1c: "state (fst (executeAll ?b 0 ?cs)) = OPEN" by (elim conjE)
  from c1 have "failureCount (fst (executeAll ?b 0 ?cs)) = int 2" by (elim conjE)
  then have c1d: "failureCount (fst (executeAll ?b 0 ?cs)) = 2" by simp
  from h2 have h2a: "state ?b' = CLOSED" by (rule conjunct1)
  from h2 have h2b: "fst (?op 0) = Resolved 7" by (rule conjunct2)
  from c3 have c3a: "state (fst (snd (execute ?b' 30 30 31 ?op 0))) = CLOSED" by (rule conjunct1)
  from c3 have c3b: "failureCount (fst (snd (execute ?b' 30 30 31 ?op 0))) = 0" by (rule conjunct2)
  show ?thesis
    apply (rule conjI [OF c1a])
    apply (rule conjI [OF c1b])
    apply (rule conjI [OF c1c])
    apply (rule conjI [OF c1d])
    apply (rule conjI [OF h2a])
    apply (rule conjI [OF h2b])
    apply (rule conjI [OF c3a])
    apply (rule c3b)
    done
qed

section \<open>Recovery through HALF_OPEN\<close>

text \<open>
  C3: an \<open>execute\<close> on an OPEN breaker at or after \<open>nextAttempt\<close> moves the breaker to
  HALF_OPEN with \<open>successCount = 0\<close> before the operation runs, and the operation is run:
  the world afterwards is the one the operation leaves, a resolved probe goes through
  \<open>onSuccess\<close> and a rejected one through \<open>onFailure\<close>, both on the HALF_OPEN breaker
  (should \<open>onFailure\<close> throw, its error is the one the call rejects with). A HALF_OPEN
  breaker with no success counted and \<open>successThreshold = M\<close> (\<open>M\<close> at least 1) that sees
  \<open>M\<close> calls in a row whose operation resolves stays HALF_OPEN through the first \<open>M - 1\<close>
  and is CLOSED after the \<open>M\<close>-th, with \<open>failureCount\<close> and \<open>successCount\<close> at 0. One call
  whose operation throws while HALF_OPEN leaves the breaker OPEN with \<open>nextAttempt\<close> the
  clock read by \<open>open()\<close> plus the \<open>timeout\<close> option.
\<close>

theorem open_probe_and_recovery:
  "(state b = OPEN \<and> nextAttempt b \<le> tCheck
    \<longrightarrow> preCall b tCheck tMsg =
          (b\<lparr>totalRequests := totalRequests b + 1, state := HALF_OPEN, successCount := 0\<rparr>,
           None :: 'e ExecError option)
        \<and> execute b tCheck tMsg tSettle operation w =
          (case operation w of
             (Resolved result, w1) \<Rightarrow>
               (Inr result,
                onSuccess (b\<lparr>totalRequests := totalRequests b + 1, state := HALF_OPEN,
                             successCount := 0\<rparr>), w1)
           | (Rejected (error :: 'e), w1) \<Rightarrow>
               (case onFailure (b\<lparr>totalRequests := totalRequests b + 1, state := HALF_OPEN,
                                  successCount := 0\<rparr>) tSettle of
                  (b2, Some thrown) \<Rightarrow> (Inl (Thrown thrown), b2, w1)
                | (b2, None) \<Rightarrow> (Inl (OperationError error), b2, w1)))
        \<and> snd (snd (execute b tCheck tMsg tSettle operation w)) = snd (operation w))
   \<and> (state h = HALF_OPEN \<and> successCount h = 0 \<and> successThreshold (options h) = int M \<and> 0 < M
       \<and> length cs = M
       \<and> (\<forall>(tCheck, tMsg, tSettle, operation) \<in> set cs. \<forall>w. \<exists>v. fst (operation w) = Resolved v)
    \<longrightarrow> (\<forall>k < M. state (fst (executeAll h u (take k cs))) = HALF_OPEN
                  \<and> successCount (fst (executeAll h u (take k cs))) = int k)
        \<and> state (fst (executeAll h u cs)) = CLOSED
        \<and> failureCount (fst (executeAll h u cs)) = 0
        \<and> successCount (fst (executeAll h u cs)) = 0)
   \<and> (state h' = HALF_OPEN \<and> fst (operation' u') = Rejected e
    \<longrightarrow> state (fst (snd (execute h' tCheck' tMsg' tSettle' operation' u'))) = OPEN
        \<and> nextAttempt (fst (snd (execute h' tCheck' tMsg' tSettle' operation' u')))
            = tSettle' + timeout (options h'))"
proof (intro conjI impI)
  assume a: "state b = OPEN \<and> nextAttempt b \<le> tCheck"
  then show "preCall b tCheck tMsg =
          (b\<lparr>totalRequests := totalRequests b + 1, state := HALF_OPEN, successCount := 0\<rparr>,
           None :: 'e ExecError option)"
    by (simp add: preCall_def Let_def)
  then show "execute b tCheck tMsg tSettle operation w =
          (case operation w of
             (Resolved result, w1) \<Rightarrow>
               (Inr result,
                onSuccess (b\<lparr>totalRequests := totalRequests b + 1, state := HALF_OPEN,
                             successCount := 0\<rparr>), w1)
           | (Rejected (error :: 'e), w1) \<Rightarrow>
               (case onFailure (b\<lparr>totalRequests := totalRequests b + 1, state := HALF_OPEN,
                                  successCount := 0\<rparr>) tSettle of
                  (b2, Some thrown) \<Rightarrow> (Inl (Thrown thrown), b2, w1)
                | (b2, None) \<Rightarrow> (Inl (OperationError error), b2, w1)))"
    by (simp add: execute_def)
  then show "snd (snd (execute b tCheck tMsg tSettle operation w)) = snd (operation w)"
    by (simp split: prod.splits outcome.splits option.splits)
next
  assume a: "state h = HALF_OPEN \<and> successCount h = 0 \<and> successThreshold (options h) = int M \<and> 0 < M
       \<and> length cs = M
       \<and> (\<forall>(tCheck, tMsg, tSettle, operation) \<in> set cs. \<forall>w. \<exists>v. fst (operation w) = Resolved v)"
  then have st: "state h = HALF_OPEN" and sc: "successCount h = 0"
    and th: "successThreshold (options h) = int M" and M: "0 < M" and len: "length cs = M"
    and res: "\<forall>(tCheck, tMsg, tSettle, operation) \<in> set cs. \<forall>w. \<exists>v. fst (operation w) = Resolved v"
    by simp_all
  show "\<forall>k < M. state (fst (executeAll h u (take k cs))) = HALF_OPEN
                  \<and> successCount (fst (executeAll h u (take k cs))) = int k"
  proof (intro allI impI)
    fix k assume k: "k < M"
    have 1: "\<forall>(tCheck, tMsg, tSettle, operation) \<in> set (take k cs). \<forall>w. \<exists>v. fst (operation w) = Resolved v"
    proof
      fix c assume "c \<in> set (take k cs)"
      then have "c \<in> set cs" by (rule in_set_takeD)
      with res show "case c of (tCheck, tMsg, tSettle, operation) \<Rightarrow> \<forall>w. \<exists>v. fst (operation w) = Resolved v"
        by (rule bspec)
    qed
    have 2: "successCount h + int (length (take k cs)) < successThreshold (options h)"
      using sc th len k by simp
    from successes_below_threshold [OF 1 st 2, of u] sc len k
    show "state (fst (executeAll h u (take k cs))) = HALF_OPEN
                  \<and> successCount (fst (executeAll h u (take k cs))) = int k"
      by simp
  qed
  have ne: "cs \<noteq> []" using M len by auto
  have eq: "successCount h + int (length cs) = successThreshold (options h)"
    using sc th len by simp
  from closes_at_threshold [OF res st ne eq, of u]
  show "state (fst (executeAll h u cs)) = CLOSED"
    and "failureCount (fst (executeAll h u cs)) = 0"
    and "successCount (fst (executeAll h u cs)) = 0" by simp_all
next
  assume s: "state h' = HALF_OPEN \<and> fst (operation' u') = Rejected e"
  then obtain r where "execute h' tCheck' tMsg' tSettle' operation' u'
      = (r, fst (onFailure (h'\<lparr>totalRequests := totalRequests h' + 1\<rparr>) tSettle'),
         snd (operation' u'))"
    using execute_rejected [of h' operation' u' e tCheck' tMsg' tSettle'] by auto
  then show "state (fst (snd (execute h' tCheck' tMsg' tSettle' operation' u'))) = OPEN"
    and "nextAttempt (fst (snd (execute h' tCheck' tMsg' tSettle' operation' u')))
            = tSettle' + timeout (options h')"
    using s by (simp_all add: onFailure_state onFailure_nextAttempt)
qed

theorem open_probe_and_recovery_witness:
  "state ((newCircuitBreaker ''db'' defaultOptions)\<lparr>state := OPEN, nextAttempt := 5000\<rparr>) = OPEN
   \<and> nextAttempt ((newCircuitBreaker ''db'' defaultOptions)\<lparr>state := OPEN, nextAttempt := 5000\<rparr>) \<le> 5000
   \<and> execute ((newCircuitBreaker ''db'' defaultOptions)\<lparr>state := OPEN, nextAttempt := 5000\<rparr>)
        5000 5000 5001 (countingOp (Resolved (7::nat)) :: (string, nat, nat) operation) 0
      = (Inr 7,
         (newCircuitBreaker ''db'' defaultOptions)\<lparr>state := HALF_OPEN, nextAttempt := 5000,
            totalRequests := 1, totalSuccesses := 1, successCount := 1\<rparr>,
         1)
   \<and> state ((newCircuitBreaker ''db'' (defaultOptions\<lparr>successThreshold := 2\<rparr>))\<lparr>state := HALF_OPEN\<rparr>) = HALF_OPEN
   \<and> state (fst (executeAll ((newCircuitBreaker ''db'' (defaultOptions\<lparr>successThreshold := 2\<rparr>))\<lparr>state := HALF_OPEN\<rparr>) 0
        (take 1 [(10, 10, 11, countingOp (Resolved 1)),
         (20::int, 20::int, 21::int, countingOp (Resolved (2::nat)) :: (string, nat, nat) operation)]))) = HALF_OPEN
   \<and> state (fst (executeAll ((newCircuitBreaker ''db'' (defaultOptions\<lparr>successThreshold := 2\<rparr>))\<lparr>state := HALF_OPEN\<rparr>) 0
        [(10, 10, 11, countingOp (Resolved 1)),
         (20::int, 20::int, 21::int, countingOp (Resolved (2::nat)) :: (string, nat, nat) operation)])) = CLOSED
   \<and> state ((newCircuitBreaker ''db'' defaultOptions)\<lparr>state := HALF_OPEN\<rparr>) = HALF_OPEN
   \<and> fst ((countingOp (Rejected ''boom'') :: (string, nat, nat) operation) 0) = Rejected ''boom''
   \<and> state (fst (snd (execute ((newCircuitBreaker ''db'' defaultOptions)\<lparr>state := HALF_OPEN\<rparr>)
        6000 6000 6001 (countingOp (Rejected ''boom'') :: (string, nat, nat) operation) 0))) = OPEN
   \<and> nextAttempt (fst (snd (execute ((newCircuitBreaker ''db'' defaultOptions)\<lparr>state := HALF_OPEN\<rparr>)
        6000 6000 6001 (countingOp (Rejected ''boom'') :: (string, nat, nat) operation) 0))) = 66001"
proof -
  let ?b = "(newCircuitBreaker ''db'' defaultOptions)\<lparr>state := OPEN, nextAttempt := 5000\<rparr>"
  let ?op = "countingOp (Resolved (7::nat)) :: (string, nat, nat) operation"
  let ?h = "(newCircuitBreaker ''db'' (defaultOptions\<lparr>successThreshold := 2\<rparr>))\<lparr>state := HALF_OPEN\<rparr>"
  let ?cs = "[(10, 10, 11, countingOp (Resolved 1)),
              (20::int, 20::int, 21::int, countingOp (Resolved (2::nat)) :: (string, nat, nat) operation)]"
  let ?h' = "(newCircuitBreaker ''db'' defaultOptions)\<lparr>state := HALF_OPEN\<rparr>"
  let ?op' = "countingOp (Rejected ''boom'') :: (string, nat, nat) operation"
  note t = open_probe_and_recovery [of ?b 5000 5000 5001 ?op 0 ?h 2 ?cs 0 ?h' ?op' 0 "''boom''" 6000 6000 6001]
  have h1: "state ?b = OPEN \<and> nextAttempt ?b \<le> 5000"
    by (simp add: newCircuitBreaker_def)
  have h2: "state ?h = HALF_OPEN \<and> successCount ?h = 0 \<and> successThreshold (options ?h) = int 2
      \<and> 0 < (2::nat) \<and> length ?cs = 2
      \<and> (\<forall>(tCheck, tMsg, tSettle, operation) \<in> set ?cs. \<forall>w. \<exists>v. fst (operation w) = Resolved v)"
    by (simp add: newCircuitBreaker_def countingOp_def)
  have h3: "state ?h' = HALF_OPEN \<and> fst (?op' 0) = Rejected ''boom''"
    by (simp add: newCircuitBreaker_def countingOp_def)
  from t h1 have "execute ?b 5000 5000 5001 ?op 0 =
          (case ?op 0 of
             (Resolved result, w1) \<Rightarrow>
               (Inr result,
                onSuccess (?b\<lparr>totalRequests := totalRequests ?b + 1, state := HALF_OPEN,
                             successCount := 0\<rparr>), w1)
           | (Rejected error, w1) \<Rightarrow>
               (case onFailure (?b\<lparr>totalRequests := totalRequests ?b + 1, state := HALF_OPEN,
                                  successCount := 0\<rparr>) 5001 of
                  (b2, Some thrown) \<Rightarrow> (Inl (Thrown thrown), b2, w1)
                | (b2, None) \<Rightarrow> (Inl (OperationError error), b2, w1)))"
    by (rule conjunct1 [THEN mp, THEN conjunct2, THEN conjunct1])
  then have c1: "execute ?b 5000 5000 5001 ?op 0
      = (Inr 7,
         (newCircuitBreaker ''db'' defaultOptions)\<lparr>state := HALF_OPEN, nextAttempt := 5000,
            totalRequests := 1, totalSuccesses := 1, successCount := 1\<rparr>,
         1)"
    by (simp add: countingOp_def onSuccess_def Let_def newCircuitBreaker_def defaultOptions_def)
  from t h2 have c2: "(\<forall>k < 2. state (fst (executeAll ?h 0 (take k ?cs))) = HALF_OPEN
                  \<and> successCount (fst (executeAll ?h 0 (take k ?cs))) = int k)
        \<and> state (fst (executeAll ?h 0 ?cs)) = CLOSED
        \<and> failureCount (fst (executeAll ?h 0 ?cs)) = 0
        \<and> successCount (fst (executeAll ?h 0 ?cs)) = 0"
    by (rule conjunct2 [THEN conjunct1, THEN mp])
  have lt: "(1::nat) < 2" by simp
  from c2 have "(1::nat) < 2 \<longrightarrow> state (fst (executeAll ?h 0 (take 1 ?cs))) = HALF_OPEN
                  \<and> successCount (fst (executeAll ?h 0 (take 1 ?cs))) = int 1"
    by (rule conjunct1 [THEN spec])
  from this lt have "state (fst (executeAll ?h 0 (take 1 ?cs))) = HALF_OPEN
                  \<and> successCount (fst (executeAll ?h 0 (take 1 ?cs))) = int 1" by (rule mp)
  then have c2a: "state (fst (executeAll ?h 0 (take 1 ?cs))) = HALF_OPEN" by (rule conjunct1)
  from c2 have c2b: "state (fst (executeAll ?h 0 ?cs)) = CLOSED" by (elim conjE)
  from t h3 have c3: "state (fst (snd (execute ?h' 6000 6000 6001 ?op' 0))) = OPEN
        \<and> nextAttempt (fst (snd (execute ?h' 6000 6000 6001 ?op' 0))) = 6001 + timeout (options ?h')"
    by (rule conjunct2 [THEN conjunct2, THEN mp])
  then have c3a: "state (fst (snd (execute ?h' 6000 6000 6001 ?op' 0))) = OPEN" by (rule conjunct1)
  from c3 have c3b: "nextAttempt (fst (snd (execute ?h' 6000 6000 6001 ?op' 0))) = 66001"
    by (simp add: newCircuitBreaker_def defaultOptions_def)
  from h1 have h1a: "state ?b = OPEN" by (rule conjunct1)
  from h1 have h1b: "nextAttempt ?b \<le> 5000" by (rule conjunct2)
  from h2 have h2a: "state ?h = HALF_OPEN" by (elim conjE)
  from h3 have h3a: "state ?h' = HALF_OPEN" by (rule conjunct1)
  from h3 have h3b: "fst (?op' 0) = Rejected ''boom''" by (rule conjunct2)
  show ?thesis
    apply (rule conjI [OF h1a])
    apply (rule conjI [OF h1b])
    apply (rule conjI [OF c1])
    apply (rule conjI [OF h2a])
    apply (rule conjI [OF c2a])
    apply (rule conjI [OF c2b])
    apply (rule conjI [OF h3a])
    apply (rule conjI [OF h3b])
    apply (rule conjI [OF c3a])
    apply (rule c3b)
    done
qed


section \<open>Errors of the operation\<close>

text \<open>
  When the call is let through (the breaker is not OPEN, or the clock has reached
  \<open>nextAttempt\<close>) and the operation throws, the failure is recorded whatever happens
  next: 1 is added to \<open>totalFailures\<close> and to \<open>failureCount\<close> and the state moves as the
  transition table says, a CLOSED breaker staying CLOSED while the new \<open>failureCount\<close> is
  below the threshold and opening otherwise, a HALF_OPEN breaker (also one that this call
  moved there from OPEN) opening, with \<open>nextAttempt\<close> the clock plus the \<open>timeout\<close>
  option.
\<close>

lemma operation_failure_recorded:
  assumes "state b = OPEN \<longrightarrow> nextAttempt b \<le> tCheck"
    and "operation w = (Rejected e, w')"
    and "execute b tCheck tMsg tSettle operation w = (r, b', w'')"
  shows "w'' = w'
         \<and> totalRequests b' = totalRequests b + 1
         \<and> totalFailures b' = totalFailures b + 1
         \<and> failureCount b' = failureCount b + 1
         \<and> totalSuccesses b' = totalSuccesses b
         \<and> state b' = (if state b = CLOSED \<and> failureCount b + 1 < failureThreshold (options b)
                        then CLOSED else OPEN)
         \<and> (state b' = OPEN \<longrightarrow> nextAttempt b' = tSettle + timeout (options b))"
proof (cases "state b")
  case CLOSED
  with assms show ?thesis
    by (auto simp add: execute_def preCall_def onFailure_def open_breaker_def Let_def
        split: if_splits)
next
  case OPEN
  with assms show ?thesis
    by (auto simp add: execute_def preCall_def onFailure_def open_breaker_def Let_def
        split: if_splits)
next
  case HALF_OPEN
  with assms show ?thesis
    by (auto simp add: execute_def preCall_def onFailure_def open_breaker_def Let_def
        split: if_splits)
qed

text \<open>
  The error of the operation is thrown again, unchanged, when the failure does not open
  the breaker, and when it opens it with a \<open>nextAttempt\<close> that \<open>Date\<close> can hold.
\<close>

lemma operation_error_rethrown_in_date_range:
  assumes "state b = OPEN \<longrightarrow> nextAttempt b \<le> tCheck"
    and "operation w = (Rejected e, w')"
    and "\<not> toISOString_throws (tSettle + timeout (options b))"
  shows "fst (execute b tCheck tMsg tSettle operation w) = Inl (OperationError e)"
proof (cases "state b")
  case CLOSED
  with assms show ?thesis
    by (simp add: execute_def preCall_def onFailure_def open_breaker_def Let_def)
next
  case OPEN
  with assms show ?thesis
    by (simp add: execute_def preCall_def onFailure_def open_breaker_def Let_def)
next
  case HALF_OPEN
  with assms show ?thesis
    by (simp add: execute_def preCall_def onFailure_def open_breaker_def Let_def)
qed

lemma operation_error_replaced_out_of_date_range:
  assumes "state b = OPEN \<longrightarrow> nextAttempt b \<le> tCheck"
    and "operation w = (Rejected e, w')"
    and "state b = CLOSED \<longrightarrow> failureCount b + 1 \<ge> failureThreshold (options b)"
    and "toISOString_throws (tSettle + timeout (options b))"
  shows "fst (execute b tCheck tMsg tSettle operation w) = Inl (Thrown InvalidTimeValue)"
proof (cases "state b")
  case CLOSED
  with assms show ?thesis
    by (simp add: execute_def preCall_def onFailure_def open_breaker_def Let_def)
next
  case OPEN
  with assms show ?thesis
    by (simp add: execute_def preCall_def onFailure_def open_breaker_def Let_def)
next
  case HALF_OPEN
  with assms show ?thesis
    by (simp add: execute_def preCall_def onFailure_def open_breaker_def Let_def)
qed

text \<open>
  C7, at an input where the code departs from the specification: a breaker with
  \<open>failureThreshold = 1\<close> and \<open>timeout = 8640000000000001\<close> is CLOSED and the operation
  throws \<open>''boom''\<close>. \<open>onFailure\<close> counts the failure and calls \<open>open()\<close>, which writes
  the state and \<open>nextAttempt\<close> and then evaluates
  \<open>new Date(this.nextAttempt).toISOString()\<close> for its log line: the time value is out of
  the range of \<open>Date\<close> and a \<open>RangeError\<close> is thrown, which leaves \<open>onFailure\<close> and the
  \<open>catch\<close> block. \<open>execute\<close> rejects with the \<open>RangeError\<close>, where the specification has
  the operation's own error thrown again unchanged; no reset timer is scheduled.
\<close>

theorem rethrow_preempted_by_RangeError:
  "execute
     (newCircuitBreaker ''db''
        \<lparr>failureThreshold = 1, successThreshold = 3, timeout = 8640000000000001,
         resetTimeout = 300000\<rparr>)
     1700000000000 1700000000000 1700000000003
     (countingOp (Rejected ''boom'') :: (string, nat, nat) operation) 0
   = (Inl (Thrown InvalidTimeValue),
      (newCircuitBreaker ''db''
         \<lparr>failureThreshold = 1, successThreshold = 3, timeout = 8640000000000001,
          resetTimeout = 300000\<rparr>)
        \<lparr>state := OPEN, failureCount := 1, nextAttempt := 8641700000000004,
         totalRequests := 1, totalFailures := 1\<rparr>,
      1)"
  by (simp add: execute_def preCall_def onFailure_def open_breaker_def toISOString_throws_def
      Let_def countingOp_def newCircuitBreaker_def)

section \<open>Cache: expiry\<close>

lemma set_cache_entry:
  "map_of (cache (set_cache c key v (Some t) tEvict tExpiry tAccess)) key =
     Some \<lparr>entry_value = v,
           expiry = tExpiry + (if t = 0 then ttl (cache_options c) else t),
           lastAccessed = tAccess, accessCount = 0\<rparr>"
  by (simp add: set_cache_def Let_def evict_def update_conv' split: option.splits)

lemma set_cache_counters:
  "hits (set_cache c key v t' tEvict tExpiry tAccess) = hits c
   \<and> misses (set_cache c key v t' tEvict tExpiry tAccess) = misses c"
  by (simp add: set_cache_def Let_def evict_def split: option.splits)

text \<open>
  C4: after \<open>set(k, v, ttl)\<close> with \<open>ttl > 0\<close>, whatever the cache held before, a
  \<open>get(k)\<close> whose clock is not past the expiry (the clock read by \<open>set\<close> plus \<open>ttl\<close>)
  returns \<open>v\<close>, adds 1 to \<open>hits\<close> and leaves the entry with \<open>lastAccessed\<close> at the clock
  of the read and \<open>accessCount\<close> one higher; a \<open>get(k)\<close> whose clock is strictly past the
  expiry returns \<open>null\<close>, leaves no entry for \<open>k\<close> and adds 1 to \<open>misses\<close>; a \<open>get\<close> of
  a key that is not in the cache returns \<open>null\<close> and adds 1 to \<open>misses\<close>. \<open>get\<close> has no
  branch that throws: it is a total function into the optional value.
\<close>

theorem set_then_get:
  "(0 < t \<longrightarrow>
      (tCheck \<le> tExpiry + t \<longrightarrow>
         fst (get (set_cache c key v (Some t) tEvict tExpiry tAccess) key tStart tCheck tRead tEnd)
           = Some v
         \<and> map_of (cache (snd (get (set_cache c key v (Some t) tEvict tExpiry tAccess) key
                                 tStart tCheck tRead tEnd))) key
           = Some \<lparr>entry_value = v, expiry = tExpiry + t, lastAccessed = tRead, accessCount = 1\<rparr>
         \<and> hits (snd (get (set_cache c key v (Some t) tEvict tExpiry tAccess) key
                            tStart tCheck tRead tEnd)) = hits c + 1
         \<and> misses (snd (get (set_cache c key v (Some t) tEvict tExpiry tAccess) key
                              tStart tCheck tRead tEnd)) = misses c)
      \<and> (tCheck > tExpiry + t \<longrightarrow>
         fst (get (set_cache c key v (Some t) tEvict tExpiry tAccess) key tStart tCheck tRead tEnd)
           = None
         \<and> map_of (cache (snd (get (set_cache c key v (Some t) tEvict tExpiry tAccess) key
                                 tStart tCheck tRead tEnd))) key = None
         \<and> hits (snd (get (set_cache c key v (Some t) tEvict tExpiry tAccess) key
                            tStart tCheck tRead tEnd)) = hits c
         \<and> misses (snd (get (set_cache c key v (Some t) tEvict tExpiry tAccess) key
                              tStart tCheck tRead tEnd)) = misses c + 1))
   \<and> (map_of (cache c') key' = None \<longrightarrow>
        get c' key' tStart tCheck tRead tEnd = (None, c'\<lparr>misses := misses c' + 1\<rparr>))"
proof (intro conjI impI)
  assume "map_of (cache c') key' = None"
  then show "get c' key' tStart tCheck tRead tEnd = (None, c'\<lparr>misses := misses c' + 1\<rparr>)"
    by (simp add: get_def)
next
  let ?c1 = "set_cache c key v (Some t) tEvict tExpiry tAccess"
  assume t: "0 < t"
  then have e: "map_of (cache ?c1) key =
     Some \<lparr>entry_value = v, expiry = tExpiry + t, lastAccessed = tAccess, accessCount = 0\<rparr>"
    using set_cache_entry [of c key v t tEvict tExpiry tAccess] by simp
  note cnt = set_cache_counters [of c key v "Some t" tEvict tExpiry tAccess]
  {
    assume le: "tCheck \<le> tExpiry + t"
    show "fst (get ?c1 key tStart tCheck tRead tEnd) = Some v"
      using e le by (simp add: get_def Let_def)
    show "map_of (cache (snd (get ?c1 key tStart tCheck tRead tEnd))) key
           = Some \<lparr>entry_value = v, expiry = tExpiry + t, lastAccessed = tRead, accessCount = 1\<rparr>"
      using e le by (simp add: get_def Let_def update_conv')
    show "hits (snd (get ?c1 key tStart tCheck tRead tEnd)) = hits c + 1"
      using e le cnt by (simp add: get_def Let_def)
    show "misses (snd (get ?c1 key tStart tCheck tRead tEnd)) = misses c"
      using e le cnt by (simp add: get_def Let_def)
  }
  {
    assume gt: "tCheck > tExpiry + t"
    show "fst (get ?c1 key tStart tCheck tRead tEnd) = None"
      using e gt by (simp add: get_def Let_def)
    show "map_of (cache (snd (get ?c1 key tStart tCheck tRead tEnd))) key = None"
      using e gt by (simp add: get_def Let_def delete_conv')
    show "hits (snd (get ?c1 key tStart tCheck tRead tEnd)) = hits c"
      using e gt cnt by (simp add: get_def Let_def)
    show "misses (snd (get ?c1 key tStart tCheck tRead tEnd)) = misses c + 1"
      using e gt cnt by (simp add: get_def Let_def)
  }
qed

theorem set_then_get_witness:
  "(0::int) < 5000
   \<and> (1200::int) \<le> 1000 + 5000
   \<and> get (set_cache (newCacheService defaultCacheOptions) ''k'' (42::nat) (Some 5000) 1000 1000 1001)
         ''k'' 1200 1200 1201 1202
       = (Some 42,
          \<lparr>cache = [(''k'', \<lparr>entry_value = 42, expiry = 6000, lastAccessed = 1201, accessCount = 1\<rparr>)],
           hits = 1, misses = 0, evictions = 0, totalAccessTime = 2, totalAccesses = 1,
           cache_options = defaultCacheOptions\<rparr>)
   \<and> (6001::int) > 1000 + 5000
   \<and> get (set_cache (newCacheService defaultCacheOptions) ''k'' (42::nat) (Some 5000) 1000 1000 1001)
         ''k'' 6001 6001 6001 6001
       = (None,
          \<lparr>cache = [], hits = 0, misses = 1, evictions = 0, totalAccessTime = 0, totalAccesses = 0,
           cache_options = defaultCacheOptions\<rparr>)
   \<and> map_of (cache (newCacheService defaultCacheOptions :: nat CacheService)) ''absent'' = None
   \<and> fst (get (newCacheService defaultCacheOptions :: nat CacheService) ''absent'' 1200 1200 1201 1202)
       = None"
proof -
  let ?c = "newCacheService defaultCacheOptions :: nat CacheService"
  note t1 = set_then_get [of 5000 1200 1000 ?c "''k''" 42 1000 1001 1200 1201 1202 ?c "''absent''"]
  note t2 = set_then_get [of 5000 6001 1000 ?c "''k''" 42 1000 1001 6001 6001 6001 ?c "''absent''"]
  have h1: "(0::int) < 5000" by simp
  have h2: "(1200::int) \<le> 1000 + 5000" by simp
  have h3: "(6001::int) > 1000 + 5000" by simp
  have h4: "map_of (cache ?c) ''absent'' = None" by (simp add: newCacheService_def)
  from t1 h1 h2
  have "fst (get (set_cache ?c ''k'' 42 (Some 5000) 1000 1000 1001) ''k'' 1200 1200 1201 1202) = Some 42"
    by blast
  then have c1: "get (set_cache ?c ''k'' 42 (Some 5000) 1000 1000 1001) ''k'' 1200 1200 1201 1202
       = (Some 42,
          \<lparr>cache = [(''k'', \<lparr>entry_value = 42, expiry = 6000, lastAccessed = 1201, accessCount = 1\<rparr>)],
           hits = 1, misses = 0, evictions = 0, totalAccessTime = 2, totalAccesses = 1,
           cache_options = defaultCacheOptions\<rparr>)"
    by (simp add: get_def set_cache_def newCacheService_def defaultCacheOptions_def Let_def)
  from t2 h1 h3
  have "fst (get (set_cache ?c ''k'' 42 (Some 5000) 1000 1000 1001) ''k'' 6001 6001 6001 6001) = None"
    by blast
  then have c2: "get (set_cache ?c ''k'' 42 (Some 5000) 1000 1000 1001) ''k'' 6001 6001 6001 6001
       = (None,
          \<lparr>cache = [], hits = 0, misses = 1, evictions = 0, totalAccessTime = 0, totalAccesses = 0,
           cache_options = defaultCacheOptions\<rparr>)"
    by (simp add: get_def set_cache_def newCacheService_def defaultCacheOptions_def Let_def
        AList.delete_eq)
  from t1 h4 have "get ?c ''absent'' 1200 1200 1201 1202 = (None, ?c\<lparr>misses := misses ?c + 1\<rparr>)"
    by blast
  then have c3: "fst (get ?c ''absent'' 1200 1200 1201 1202) = None" by simp
  show ?thesis
    apply (rule conjI [OF h1])
    apply (rule conjI [OF h2])
    apply (rule conjI [OF c1])
    apply (rule conjI [OF h3])
    apply (rule conjI [OF c2])
    apply (rule conjI [OF h4])
    apply (rule c3)
    done
qed


section \<open>Cache: clear\<close>

text \<open>
  C10: after \<open>clear()\<close>, \<open>getStats()\<close> gives \<open>size\<close>, \<open>hits\<close>, \<open>misses\<close>,
  \<open>hitRate\<close>, \<open>avgAccessTime\<close> and \<open>evictions\<close> all 0, whatever the cache held and had
  counted: the counters are reset with the entries.
\<close>

theorem clear_resets_stats:
  "getStats (clear c) =
     \<lparr>stats_size = 0, stats_hits = 0, stats_misses = 0, hitRate = Num 0, avgAccessTime = Num 0,
      stats_evictions = 0\<rparr>"
  by (simp add: getStats_def clear_def resetStats_def js_div_def or_zero_def)


theorem clear_resets_stats_witness:
  "getStats (clear (snd (get (set_cache (newCacheService defaultCacheOptions) ''k'' (42::nat)
       (Some 5000) 1000 1000 1001) ''k'' 1200 1200 1201 1202))) =
     \<lparr>stats_size = 0, stats_hits = 0, stats_misses = 0, hitRate = Num 0, avgAccessTime = Num 0,
      stats_evictions = 0\<rparr>
   \<and> getStats (snd (get (set_cache (newCacheService defaultCacheOptions) ''k'' (42::nat)
       (Some 5000) 1000 1000 1001) ''k'' 1200 1200 1201 1202)) =
     \<lparr>stats_size = 1, stats_hits = 1, stats_misses = 0, hitRate = Num 1, avgAccessTime = Num 2,
      stats_evictions = 0\<rparr>"
proof -
  have "getStats (snd (get (set_cache (newCacheService defaultCacheOptions) ''k'' (42::nat)
       (Some 5000) 1000 1000 1001) ''k'' 1200 1200 1201 1202)) =
     \<lparr>stats_size = 1, stats_hits = 1, stats_misses = 0, hitRate = Num 1, avgAccessTime = Num 2,
      stats_evictions = 0\<rparr>"
    by (simp add: getStats_def get_def set_cache_def newCacheService_def defaultCacheOptions_def
        Let_def js_div_def or_zero_def)
  with clear_resets_stats [of "snd (get (set_cache (newCacheService defaultCacheOptions) ''k'' (42::nat)
       (Some 5000) 1000 1000 1001) ''k'' 1200 1200 1201 1202)"]
  show ?thesis by (rule conjI)
qed


section \<open>Cache: eviction\<close>

text \<open>
  What the scan of \<open>evict\<close> computes: the least \<open>lastAccessed\<close> below its starting value,
  with the first key that has it, or the starting value and key when no entry is below.
\<close>

lemma evictScan_invariant:
  "evictScan es t0 k0 = (t, k) \<Longrightarrow>
     (\<forall>(key', entry') \<in> set es. t \<le> lastAccessed entry') \<and> t \<le> t0
     \<and> ((t = t0 \<and> k = k0 \<and> (\<forall>(key', entry') \<in> set es. t0 \<le> lastAccessed entry'))
         \<or> (t < t0 \<and> (\<exists>key entry. k = Some key \<and> (key, entry) \<in> set es \<and> lastAccessed entry = t)))"
proof (induction es t0 k0 arbitrary: t k rule: evictScan.induct)
  case (1 oldestAccess keyToEvict)
  then show ?case by simp
next
  case (2 key entry rest oldestAccess keyToEvict)
  show ?case
  proof (cases "lastAccessed entry < oldestAccess")
    case True
    with 2 have r: "evictScan rest (lastAccessed entry) (Some key) = (t, k)" by simp
    from "2.IH"(1) [OF True r] True show ?thesis by fastforce
  next
    case False
    with 2 have r: "evictScan rest oldestAccess keyToEvict = (t, k)" by simp
    from "2.IH"(2) [OF False r] False show ?thesis by fastforce
  qed
qed

lemma evict_removes_least_recently_accessed:
  assumes "(key0, entry0) \<in> set (cache c)" and "lastAccessed entry0 < now"
    and "\<forall>(key', entry') \<in> set (cache c). key' \<noteq> []"
  shows "\<exists>key entry. (key, entry) \<in> set (cache c)
           \<and> (\<forall>(key', entry') \<in> set (cache c). lastAccessed entry \<le> lastAccessed entry')
           \<and> evict c now = c\<lparr>cache := AList.delete key (cache c), evictions := evictions c + 1\<rparr>"
proof -
  obtain t k where r: "evictScan (cache c) now None = (t, k)"
    by (cases "evictScan (cache c) now None") auto
  note inv = evictScan_invariant [OF r]
  from inv assms(1,2) have "t < now" by fastforce
  with inv obtain key entry where k: "k = Some key" and mem: "(key, entry) \<in> set (cache c)"
    and la: "lastAccessed entry = t" by auto
  from assms(3) mem have "key \<noteq> []" by auto
  then have "evict c now = c\<lparr>cache := AList.delete key (cache c), evictions := evictions c + 1\<rparr>"
    using r k by (simp add: evict_def)
  moreover from inv la have "\<forall>(key', entry') \<in> set (cache c). lastAccessed entry \<le> lastAccessed entry'"
    by simp
  ultimately show ?thesis using mem by blast
qed

text \<open>
  C5, at an input where the code departs from the specification: a cache with \<open>maxSize = 2\<close>
  receives three \<open>set\<close> calls within one millisecond (every \<open>Date.now()\<close> reads 1000).
  At the third call the size is 2, so \<open>evict\<close> runs; its scan starts at
  \<open>oldestAccess = 1000\<close> and looks for an entry with \<open>lastAccessed < 1000\<close>, finds none
  and removes nothing. The cache ends with three entries and \<open>evictions = 0\<close>, where the
  specification has the entry with the oldest \<open>lastAccessed\<close> evicted before the insertion.
\<close>

theorem set_at_capacity_same_millisecond:
  "set_cache
     (set_cache
        (set_cache (newCacheService \<lparr>ttl = 300000, maxSize = 2, cleanupInterval = 60000\<rparr>)
           ''a'' (1::nat) None 1000 1000 1000)
        ''b'' 2 None 1000 1000 1000)
     ''c'' 3 None 1000 1000 1000
   = \<lparr>cache = [(''a'', \<lparr>entry_value = 1, expiry = 301000, lastAccessed = 1000, accessCount = 0\<rparr>),
               (''b'', \<lparr>entry_value = 2, expiry = 301000, lastAccessed = 1000, accessCount = 0\<rparr>),
               (''c'', \<lparr>entry_value = 3, expiry = 301000, lastAccessed = 1000, accessCount = 0\<rparr>)],
      hits = 0, misses = 0, evictions = 0, totalAccessTime = 0, totalAccesses = 0,
      cache_options = \<lparr>ttl = 300000, maxSize = 2, cleanupInterval = 60000\<rparr>\<rparr>"
  by (simp add: set_cache_def newCacheService_def evict_def Let_def)

section \<open>Load tester: a run in which every call throws\<close>

text \<open>
  When every timed call throws, nothing is pushed to \<open>results\<close>: the minimum and the
  maximum are 0 through \<open>|| 0\<close>, every call is counted in \<open>errors\<close>, and the mean is
  \<open>0 / 0\<close>.
\<close>

lemma no_results_when_all_throw:
  "concat (map ((\<lambda>r. case r of Some d \<Rightarrow> [d] | None \<Rightarrow> [])
                  \<circ> (\<lambda>(batch, i). (None :: real option))) calls) = []"
  by (induction calls) auto

lemma all_errors_when_all_throw:
  "length (concat (map ((\<lambda>r. case r of Some d \<Rightarrow> [] | None \<Rightarrow> [x])
                          \<circ> (\<lambda>(batch, i). (None :: real option))) calls)) = length calls"
  by (induction calls) auto

lemma benchmark_every_call_throws:
  "benchmark (\<lambda>batch i. None) iterations concurrency elapsed =
     \<lparr>totalTime = elapsed, avgTime = NaN, minTime = 0, maxTime = 0,
      rps = js_mul (js_div 0 elapsed) 1000,
      errors = length (timedCalls iterations concurrency)\<rparr>"
  by (simp add: benchmark_def Let_def no_results_when_all_throw all_errors_when_all_throw
      js_div_def js_index_def)

text \<open>
  C6, at an input where the code departs from the specification: a benchmark of 3 iterations in 2
  batches against a function that always throws returns \<open>minTime = 0\<close>,
  \<open>maxTime = 0\<close> and \<open>errors = 3\<close>, the number of timed calls, but \<open>avgTime\<close> is NaN,
  where the specification has the mean equal to 0.
\<close>

theorem benchmark_all_errors:
  "benchmark (\<lambda>batch i. None) 3 2 (25 / 2) =
     \<lparr>totalTime = 25 / 2, avgTime = NaN, minTime = 0, maxTime = 0, rps = Num 0, errors = 3\<rparr>"
  by (simp add: benchmark_def timedCalls_def batchSize_def upt_rec Let_def js_div_def js_mul_def
      js_index_def)

section \<open>Profiler: the 95th percentile\<close>

lemma p95_index_in_range:
  assumes "0 < n"
  shows "nat \<lfloor>real n * (95 / 100)\<rfloor> < n"
proof -
  have "real n * (95 / 100) < real n" using assms by simp
  then have "\<lfloor>real n * (95 / 100)\<rfloor> < int n" by (simp add: floor_less_iff)
  then show ?thesis using assms by linarith
qed

text \<open>
  C8: for a label with at least one sample, \<open>getProfileStats\<close> returns statistics whose
  \<open>p95Duration\<close> is the element of the ascending-sorted durations at index
  \<open>floor (0.95 * n)\<close>, an index that lies inside the list, with no interpolation; for the
  ten durations 10, 20, ..., 100, recorded in any order, it is 100; for a label that has no
  array of samples, or an empty one, the result is \<open>null\<close>.
\<close>

theorem p95_is_element_at_floor:
  "(profiles label = Some ps \<and> ps \<noteq> [] \<longrightarrow>
      nat \<lfloor>real (length ps) * (95 / 100)\<rfloor> < length ps
      \<and> (\<exists>st. getProfileStats profiles label = Some st
            \<and> p95Duration st
                = Some (sort (map duration ps) ! nat \<lfloor>real (length ps) * (95 / 100)\<rfloor>)))
   \<and> (profiles label = Some ps
       \<and> mset (map duration ps) = mset [10, 20, 30, 40, 50, 60, 70, 80, 90, 100] \<longrightarrow>
      (\<exists>st. getProfileStats profiles label = Some st \<and> p95Duration st = Some 100))
   \<and> (profiles label' = None \<or> profiles label' = Some [] \<longrightarrow>
        getProfileStats profiles label' = None)"
proof (intro conjI impI)
  assume a: "profiles label = Some ps \<and> ps \<noteq> []"
  then show idx: "nat \<lfloor>real (length ps) * (95 / 100)\<rfloor> < length ps"
    using p95_index_in_range [of "length ps"] by simp
  from a idx
  show "\<exists>st. getProfileStats profiles label = Some st
            \<and> p95Duration st
                = Some (sort (map duration ps) ! nat \<lfloor>real (length ps) * (95 / 100)\<rfloor>)"
    by (simp add: getProfileStats_def Let_def js_index_def)
next
  assume a: "profiles label = Some ps
       \<and> mset (map duration ps) = mset [10, 20, 30, 40, 50, 60, 70, 80, 90, 100]"
  then have m: "mset [10, 20, 30, 40, 50, 60, 70, 80, 90, 100] = mset (map duration ps)"
    by simp
  have srt: "sort (map duration ps) = [10, 20, 30, 40, 50, 60, 70, 80, 90, 100]"
    by (rule properties_for_sort [OF m]) simp
  from a have "mset (map duration ps) = mset [10 :: real, 20, 30, 40, 50, 60, 70, 80, 90, 100]"
    by (rule conjunct2)
  then have "length (map duration ps) = length [10 :: real, 20, 30, 40, 50, 60, 70, 80, 90, 100]"
    by (rule mset_eq_length)
  then have len: "length ps = 10" by simp
  then have ne: "ps \<noteq> []" by auto
  show "\<exists>st. getProfileStats profiles label = Some st \<and> p95Duration st = Some 100"
    using a ne len srt by (simp add: getProfileStats_def Let_def js_index_def)
next
  assume "profiles label' = None \<or> profiles label' = Some []"
  then show "getProfileStats profiles label' = None"
    by (auto simp add: getProfileStats_def)
qed

theorem p95_is_element_at_floor_witness:
  "(Map.empty(''api'' \<mapsto> map sampleWithDuration [100, 90, 80, 70, 60, 50, 40, 30, 20, 10])) ''api''
      = Some (map sampleWithDuration [100, 90, 80, 70, 60, 50, 40, 30, 20, 10])
   \<and> map sampleWithDuration [100, 90, 80, 70, 60, 50, 40, 30, 20, 10] \<noteq> []
   \<and> mset (map duration (map sampleWithDuration [100, 90, 80, 70, 60, 50, 40, 30, 20, 10]))
      = mset [10, 20, 30, 40, 50, 60, 70, 80, 90, 100]
   \<and> (\<exists>st. getProfileStats
              (Map.empty(''api'' \<mapsto> map sampleWithDuration [100, 90, 80, 70, 60, 50, 40, 30, 20, 10]))
              ''api'' = Some st
          \<and> p95Duration st = Some 100)
   \<and> ((Map.empty(''api'' \<mapsto> map sampleWithDuration [100, 90, 80, 70, 60, 50, 40, 30, 20, 10])) ''db''
        = None
       \<or> (Map.empty(''api'' \<mapsto> map sampleWithDuration [100, 90, 80, 70, 60, 50, 40, 30, 20, 10])) ''db''
        = Some [])
   \<and> getProfileStats
        (Map.empty(''api'' \<mapsto> map sampleWithDuration [100, 90, 80, 70, 60, 50, 40, 30, 20, 10]))
        ''db'' = None"
proof -
  let ?ps = "map sampleWithDuration [100, 90, 80, 70, 60, 50, 40, 30, 20, 10]"
  let ?P = "Map.empty(''api'' \<mapsto> ?ps)"
  note t = p95_is_element_at_floor [of ?P "''api''" ?ps "''db''"]
  have h1: "?P ''api'' = Some ?ps" by simp
  have h2: "?ps \<noteq> []" by simp
  have h3: "mset (map duration ?ps) = mset [10, 20, 30, 40, 50, 60, 70, 80, 90, 100]"
    by (simp add: sampleWithDuration_def)
  have h4: "?P ''db'' = None \<or> ?P ''db'' = Some []" by simp
  from h1 h3 have h13: "?P ''api'' = Some ?ps
      \<and> mset (map duration ?ps) = mset [10, 20, 30, 40, 50, 60, 70, 80, 90, 100]" by (rule conjI)
  from t h13 have c1: "\<exists>st. getProfileStats ?P ''api'' = Some st \<and> p95Duration st = Some 100"
    by (rule conjunct2 [THEN conjunct1, THEN mp])
  from t h4 have c2: "getProfileStats ?P ''db'' = None"
    by (rule conjunct2 [THEN conjunct2, THEN mp])
  show ?thesis
    apply (rule conjI [OF h1])
    apply (rule conjI [OF h2])
    apply (rule conjI [OF h3])
    apply (rule conjI [OF c1])
    apply (rule conjI [OF h4])
    apply (rule c2)
    done
qed


section \<open>Leak detector: the trend over the last five snapshots\<close>

lemma upt_5: "[0 ..< 5] = [0, 1, 2, 3, 4]"
  by (simp add: upt_rec)

lemma length_5_cases:
  assumes "length xs = 5"
  obtains a b c d e where "xs = [a, b, c, d, e]"
proof -
  from assms obtain a xs1 where 1: "xs = a # xs1" "length xs1 = 4" by (cases xs) auto
  then obtain b xs2 where 2: "xs1 = b # xs2" "length xs2 = 3" by (cases xs1) auto
  then obtain c xs3 where 3: "xs2 = c # xs3" "length xs3 = 2" by (cases xs2) auto
  then obtain d xs4 where 4: "xs3 = d # xs4" "length xs4 = 1" by (cases xs3) auto
  then obtain e where 5: "xs4 = [e]" by (cases xs4) auto
  from 1 2 3 4 5 that show thesis by simp
qed

lemma calculateTrend_5:
  "calculateTrend [a, b, c, d, e] = Num ((4 * (e - a) + 2 * (d - b)) / 5)"
  by (simp add: calculateTrend_def Let_def js_div_def js_mul_def enumerate_eq_zip upt_5 field_simps)

lemma spec_drift_5:
  "spec_drift [a, b, c, d, e] = (4 * (e - a) + 2 * (d - b)) / 5"
  by (simp add: spec_drift_def spec_ols_slope_def mean_def upt_5 power2_eq_square field_simps)

text \<open>
  C9: with at least 5 snapshots, \<open>checkForLeaks\<close> warns exactly when the ordinary
  least-squares slope of the last 5 \<open>heapUsed\<close> values over the indices 0 to 4, times
  \<open>n - 1 = 4\<close>, is strictly above \<open>50 * 1024 * 1024\<close>. Five last values that each lie
  15 MB above the one before make it warn; last five values that never rise (flat or
  declining) do not; with fewer than 5 snapshots there is no warning.
\<close>

theorem leak_warning_iff_drift_exceeds_50MB:
  "(5 \<le> length snapshots \<longrightarrow>
      checkForLeaks snapshots
        = (spec_drift (map heapUsed (drop (length snapshots - 5) snapshots)) > 50 * 1024 * 1024))
   \<and> (5 \<le> length rising
       \<and> map heapUsed (drop (length rising - 5) rising)
           = [h, h + 15 * 1024 * 1024, h + 30 * 1024 * 1024, h + 45 * 1024 * 1024,
              h + 60 * 1024 * 1024] \<longrightarrow>
      checkForLeaks rising)
   \<and> (5 \<le> length falling
       \<and> sorted (rev (map heapUsed (drop (length falling - 5) falling))) \<longrightarrow>
      \<not> checkForLeaks falling)
   \<and> (length few < 5 \<longrightarrow> \<not> checkForLeaks few)"
proof (intro conjI impI)
  assume a: "5 \<le> length snapshots"
  then have "length (map heapUsed (drop (length snapshots - 5) snapshots)) = 5" by simp
  then obtain v1 v2 v3 v4 v5
    where "map heapUsed (drop (length snapshots - 5) snapshots) = [v1, v2, v3, v4, v5]"
    by (rule length_5_cases)
  then show "checkForLeaks snapshots
        = (spec_drift (map heapUsed (drop (length snapshots - 5) snapshots)) > 50 * 1024 * 1024)"
    using a by (simp add: checkForLeaks_def Let_def calculateTrend_5 spec_drift_5 js_gt_def)
next
  assume a: "5 \<le> length rising
       \<and> map heapUsed (drop (length rising - 5) rising)
           = [h, h + 15 * 1024 * 1024, h + 30 * 1024 * 1024, h + 45 * 1024 * 1024,
              h + 60 * 1024 * 1024]"
  then show "checkForLeaks rising"
    by (simp add: checkForLeaks_def Let_def calculateTrend_5 js_gt_def)
next
  assume a: "5 \<le> length falling
       \<and> sorted (rev (map heapUsed (drop (length falling - 5) falling)))"
  then have "length (map heapUsed (drop (length falling - 5) falling)) = 5" by simp
  then obtain v1 v2 v3 v4 v5
    where v: "map heapUsed (drop (length falling - 5) falling) = [v1, v2, v3, v4, v5]"
    by (rule length_5_cases)
  with a have "sorted (rev [v1, v2, v3, v4, v5])" by simp
  then have "v5 \<le> v1" and "v4 \<le> v2" by (auto simp add: sorted_append)
  then have "(4 * (v5 - v1) + 2 * (v4 - v2)) / 5 \<le> 0" by simp
  then show "\<not> checkForLeaks falling"
    using a v by (simp add: checkForLeaks_def Let_def calculateTrend_5 js_gt_def)
next
  assume "length few < 5"
  then show "\<not> checkForLeaks few" by (simp add: checkForLeaks_def)
qed

theorem leak_warning_iff_drift_exceeds_50MB_witness:
  "(5 \<le> length (map snapshotWithHeap [104857600, 120586240, 136314880, 152043520, 167772160])
    \<and> map heapUsed (drop (length (map snapshotWithHeap
                               [104857600, 120586240, 136314880, 152043520, 167772160]) - 5)
                      (map snapshotWithHeap [104857600, 120586240, 136314880, 152043520, 167772160]))
       = [104857600, 104857600 + 15 * 1024 * 1024, 104857600 + 30 * 1024 * 1024,
          104857600 + 45 * 1024 * 1024, 104857600 + 60 * 1024 * 1024])
   \<and> checkForLeaks (map snapshotWithHeap [104857600, 120586240, 136314880, 152043520, 167772160])
   \<and> (5 \<le> length (map snapshotWithHeap [9, 8, 8, 8, 8, 7, 7])
      \<and> sorted (rev (map heapUsed (drop (length (map snapshotWithHeap [9, 8, 8, 8, 8, 7, 7]) - 5)
                                      (map snapshotWithHeap [9, 8, 8, 8, 8, 7, 7])))))
   \<and> \<not> checkForLeaks (map snapshotWithHeap [9, 8, 8, 8, 8, 7, 7])
   \<and> length (map snapshotWithHeap [1, 1073741824, 2147483648, 3221225472]) < 5
   \<and> \<not> checkForLeaks (map snapshotWithHeap [1, 1073741824, 2147483648, 3221225472])
   \<and> checkForLeaks (map snapshotWithHeap [104857600, 120586240, 136314880, 152043520, 167772160])
      = (spec_drift (map heapUsed (drop
            (length (map snapshotWithHeap [104857600, 120586240, 136314880, 152043520, 167772160]) - 5)
            (map snapshotWithHeap [104857600, 120586240, 136314880, 152043520, 167772160])))
          > 50 * 1024 * 1024)"
proof -
  let ?rising = "map snapshotWithHeap [104857600, 120586240, 136314880, 152043520, 167772160]"
  let ?falling = "map snapshotWithHeap [9, 8, 8, 8, 8, 7, 7]"
  let ?few = "map snapshotWithHeap [1, 1073741824, 2147483648, 3221225472]"
  note t = leak_warning_iff_drift_exceeds_50MB [of ?rising ?rising 104857600 ?falling ?few]
  have h0: "5 \<le> length ?rising" by simp
  have h1: "5 \<le> length ?rising
    \<and> map heapUsed (drop (length ?rising - 5) ?rising)
       = [104857600, 104857600 + 15 * 1024 * 1024, 104857600 + 30 * 1024 * 1024,
          104857600 + 45 * 1024 * 1024, 104857600 + 60 * 1024 * 1024]"
    by (simp add: snapshotWithHeap_def)
  have h2: "5 \<le> length ?falling
      \<and> sorted (rev (map heapUsed (drop (length ?falling - 5) ?falling)))"
    by (simp add: snapshotWithHeap_def)
  have h3: "length ?few < 5" by simp
  from t h0 have c0: "checkForLeaks ?rising
      = (spec_drift (map heapUsed (drop (length ?rising - 5) ?rising)) > 50 * 1024 * 1024)"
    by (rule conjunct1 [THEN mp])
  from t h1 have c1: "checkForLeaks ?rising"
    by (rule conjunct2 [THEN conjunct1, THEN mp])
  from t h2 have c2: "\<not> checkForLeaks ?falling"
    by (rule conjunct2 [THEN conjunct2, THEN conjunct1, THEN mp])
  from t h3 have c3: "\<not> checkForLeaks ?few"
    by (rule conjunct2 [THEN conjunct2, THEN conjunct2, THEN mp])
  show ?thesis
    apply (rule conjI [OF h1])
    apply (rule conjI [OF c1])
    apply (rule conjI [OF h2])
    apply (rule conjI [OF c2])
    apply (rule conjI [OF h3])
    apply (rule conjI [OF c3])
    apply (rule c0)
    done
qed

end
